theory Spec2Isabelle
  imports Complex_Main
begin

section \<open>Price ladder reconstruction: the \<open>MarketData\<close> class of price_ladder_viewer.py\<close>

text \<open>
  The development embeds the class \<open>MarketData\<close>: its constructor state, the chronological
  step \<open>get_next_price_ladder_df\<close>, the pacing signal \<open>get_price_ladder_time_elapsed\<close> and the
  two helpers \<open>_update_quote\<close> and \<open>_update_trade\<close>.

  Modelling decisions, all visible in the definitions below:
  \<^item> prices and the tick size are binary64 floating-point numbers. A finite double is
    modelled by its value, a rational (\<open>rat\<close>), and every floating-point operation of
    the source is the exact result rounded to the nearest double, ties to even, with
    gradual underflow (\<open>rnd\<close>, \<open>fadd\<close>, \<open>fsub\<close>, \<open>fmul\<close>, \<open>fdiv\<close>). Infinities, NaN and the
    sign of zero are outside the model;
  \<^item> \<open>time_value\<close> is an unbounded integer; sizes and volumes are integers, and the sum
    that \<open>_update_trade\<close> forms on a numpy \<open>int64\<close> wraps around as it does there;
  \<^item> the data frame \<open>_price_ladder_df\<close> has five string columns fixed at construction; a row
    is a record of the five cells \<open>c0 .. c4\<close> and the frame is the list of its rows;
  \<^item> every exception the Python can raise (\<open>KeyError\<close> of \<open>.loc\<close>, \<open>IndexError\<close> of
    array and \<open>.iloc\<close> indexing, \<open>TypeError\<close> of subscripting \<open>None\<close>, \<open>ValueError\<close> of
    \<open>int(...)\<close> and of a length mismatch) is a value \<open>Inl e\<close> of the result;
  \<^item> the two query results of the constructor are parameters: the quotes and the trades
    as lists of records; \<open>row_count\<close> is a natural number and \<open>price_format\<close> a function
    from a price to its label;
  \<^item> the \<open>print\<close> calls have no effect on the state and appear only through the indexing
    error they can raise;
  \<^item> a call that raises yields only the exception: the partly updated object it leaves
    behind in Python is not part of the result.
\<close>

subsection \<open>Data\<close>

datatype error = KeyError | IndexError | TypeError | ValueError

record quote =
  quote_time_value :: int
  bid_price :: rat
  bid_size :: int
  ask_price :: rat
  ask_size :: int

record trade =
  trade_time_value :: int
  price :: rat
  volume :: int

record ladder_config =
  row_count :: nat
  tick_size :: rat
  price_format :: "rat \<Rightarrow> string"

record df_row =
  c0 :: string
  c1 :: string
  c2 :: string
  c3 :: string
  c4 :: string

record market_data =
  config :: ladder_config
  price_ladder :: "rat list option"
  price_ladder_df :: "df_row list"
  quotes_row :: nat
  trades_row :: nat
  quotes_df :: "quote list"
  trades_df :: "trade list"

subsection \<open>Library functions the class calls\<close>

text \<open>\<open>str(n)\<close> of an integer: decimal digits, with a minus sign for a negative number.\<close>

definition digit_char :: "nat \<Rightarrow> char" where
  "digit_char d = char_of (48 + d)"

fun str_nat :: "nat \<Rightarrow> string" where
  "str_nat n = (if n < 10 then [digit_char n] else str_nat (n div 10) @ [digit_char (n mod 10)])"

declare str_nat.simps [simp del]

definition str_int :: "int \<Rightarrow> string" where
  "str_int v = (if v < 0 then CHR ''-'' # str_nat (nat (- v)) else str_nat (nat v))"

text \<open>
  \<open>int(s)\<close> of a string: an optional sign followed by one or more decimal digits;
  anything else raises \<open>ValueError\<close>. (Python also accepts surrounding white space and
  underscores between digits; \<open>str\<close> never produces them.)
\<close>

definition is_digit :: "char \<Rightarrow> bool" where
  "is_digit c = (48 \<le> (of_char c :: nat) \<and> (of_char c :: nat) \<le> 57)"

definition digit_val :: "char \<Rightarrow> nat" where
  "digit_val c = of_char c - 48"

definition parse_nat :: "string \<Rightarrow> error + nat" where
  "parse_nat s =
     (if s = [] \<or> \<not> list_all is_digit s then Inl ValueError
      else Inr (foldl (\<lambda>a c. 10 * a + digit_val c) 0 s))"

definition py_int :: "string \<Rightarrow> error + int" where
  "py_int s =
     (case s of
        [] \<Rightarrow> Inl ValueError
      | c # r \<Rightarrow>
          if c = CHR ''-'' then (case parse_nat r of Inl e \<Rightarrow> Inl e | Inr n \<Rightarrow> Inr (- int n))
          else if c = CHR ''+'' then (case parse_nat r of Inl e \<Rightarrow> Inl e | Inr n \<Rightarrow> Inr (int n))
          else (case parse_nat s of Inl e \<Rightarrow> Inl e | Inr n \<Rightarrow> Inr (int n)))"

text \<open>
  Binary64 arithmetic. \<open>bitlen n\<close> is the number of binary digits of a positive integer,
  \<open>pow2 e\<close> is \<open>2\<close> to the power \<open>e\<close>, and \<open>ilog2 x\<close> is the exponent \<open>e\<close> with
  \<open>pow2 e \<le> x < pow2 (e + 1)\<close> of a positive rational, found from the bit lengths of its
  numerator and denominator. \<open>rnd x\<close> is the double nearest to \<open>x\<close>: the multiple of the
  unit in the last place \<open>pow2 (e - 52)\<close> nearest to \<open>x\<close>, the even multiple at a tie, where
  \<open>e\<close> is the exponent of \<open>x\<close> and at least \<open>-1022\<close> (below that the doubles are
  subnormal and equally spaced).
\<close>

function bitlen :: "int \<Rightarrow> int" where
  "bitlen n = (if n \<le> 0 then 0 else 1 + bitlen (n div 2))"
  by pat_completeness auto
termination
  by (relation "measure nat") auto

declare bitlen.simps [simp del]

definition pow2 :: "int \<Rightarrow> rat" where
  "pow2 e = (if 0 \<le> e then 2 ^ nat e else 1 / 2 ^ nat (- e))"

definition ilog2 :: "rat \<Rightarrow> int" where
  "ilog2 x =
     (let (p, q) = quotient_of x; d = bitlen p - bitlen q
      in if pow2 d \<le> x then d else d - 1)"

definition round_even :: "rat \<Rightarrow> int" where
  "round_even y =
     (let f = \<lfloor>y\<rfloor>; r = y - of_int f
      in if r < 1 / 2 then f else if 1 / 2 < r then f + 1 else if even f then f else f + 1)"

definition rnd :: "rat \<Rightarrow> rat" where
  "rnd x =
     (if x = 0 then 0
      else (let e = max (ilog2 \<bar>x\<bar>) (- 1022); ulp = pow2 (e - 52)
            in of_int (round_even (x / ulp)) * ulp))"

text \<open>
  The four operations on doubles, and the conversion of a Python integer to a double
  that a mixed operation performs.
\<close>

definition fadd :: "rat \<Rightarrow> rat \<Rightarrow> rat" where
  "fadd a b = rnd (a + b)"

definition fsub :: "rat \<Rightarrow> rat \<Rightarrow> rat" where
  "fsub a b = rnd (a - b)"

definition fmul :: "rat \<Rightarrow> rat \<Rightarrow> rat" where
  "fmul a b = rnd (a * b)"

definition fdiv :: "rat \<Rightarrow> rat \<Rightarrow> rat" where
  "fdiv a b = rnd (a / b)"

definition float_of_int :: "int \<Rightarrow> rat" where
  "float_of_int n = rnd (of_int n)"

text \<open>
  \<open>math.isclose(a, b)\<close> with the default \<open>rel_tol = 1e-9\<close> and \<open>abs_tol = 0.0\<close>, as CPython
  computes it: equal values are close; otherwise the rounded difference is compared with
  the rounded product of the relative tolerance and either argument, or with the
  absolute tolerance. \<open>rel_tol\<close> is the double nearest to \<open>1e-9\<close>.
\<close>

definition rel_tol :: rat where
  "rel_tol = rnd (1 / 1000000000)"

definition abs_tol :: rat where
  "abs_tol = 0"

definition isclose :: "rat \<Rightarrow> rat \<Rightarrow> bool" where
  "isclose a b =
     (a = b \<or>
      (let diff = \<bar>fsub b a\<bar>
       in diff \<le> \<bar>fmul rel_tol b\<bar> \<or> diff \<le> \<bar>fmul rel_tol a\<bar> \<or> diff \<le> abs_tol))"

text \<open>
  \<open>np.linspace(start, stop, num)\<close> with the end point included, as numpy computes it:
  the integers \<open>0 .. num - 1\<close> as doubles are multiplied by
  \<open>step = (stop - start) / (num - 1)\<close> (or, when the step rounds to zero, divided by
  \<open>num - 1\<close> and multiplied by \<open>stop - start\<close>), \<open>start\<close> is added, and the last sample is
  overwritten with \<open>stop\<close>. A single sample is \<open>0 * (stop - start) + start\<close>.
\<close>

definition linspace :: "rat \<Rightarrow> rat \<Rightarrow> nat \<Rightarrow> rat list" where
  "linspace start stop num =
     (let last_index = int num - 1;
          delta = fsub stop start;
          y = map (\<lambda>i. float_of_int (int i)) [0..<num];
          scaled =
            (if 0 < last_index
             then (let step = fdiv delta (float_of_int last_index)
                   in if step = 0
                      then map (\<lambda>v. fmul (fdiv v (float_of_int last_index)) delta) y
                      else map (\<lambda>v. fmul v step) y)
             else map (\<lambda>v. fmul v delta) y);
          shifted = map (\<lambda>v. fadd v start) scaled
      in if 1 < num then shifted[num - 1 := stop] else shifted)"

subsection \<open>Indexing that can raise\<close>

text \<open>\<open>df.loc[i, ...]\<close> on the default integer index: a missing label is a \<open>KeyError\<close>.\<close>

definition loc :: "'a list \<Rightarrow> nat \<Rightarrow> error + 'a" where
  "loc df i = (if i < length df then Inr (df ! i) else Inl KeyError)"

text \<open>\<open>df.iloc[i, ]\<close>: a position out of bounds is an \<open>IndexError\<close>.\<close>

definition iloc :: "'a list \<Rightarrow> nat \<Rightarrow> error + 'a" where
  "iloc df i = (if i < length df then Inr (df ! i) else Inl IndexError)"

text \<open>
  \<open>self._price_ladder[i]\<close> for \<open>i \<ge> 0\<close>: subscripting \<open>None\<close> is a \<open>TypeError\<close>, an index
  out of bounds an \<open>IndexError\<close>. \<open>self._price_ladder[-1]\<close> is the last element.
\<close>

definition ladder_at :: "rat list option \<Rightarrow> nat \<Rightarrow> error + rat" where
  "ladder_at pl i =
     (case pl of
        None \<Rightarrow> Inl TypeError
      | Some l \<Rightarrow> if i < length l then Inr (l ! i) else Inl IndexError)"

definition ladder_last :: "rat list option \<Rightarrow> error + rat" where
  "ladder_last pl =
     (case pl of
        None \<Rightarrow> Inl TypeError
      | Some l \<Rightarrow> if l = [] then Inl IndexError else Inr (last l))"

text \<open>A \<open>for i in range(...)\<close> loop over the frame that stops at the first exception.\<close>

primrec for_rows ::
  "(nat \<Rightarrow> df_row list \<Rightarrow> error + df_row list) \<Rightarrow> nat list \<Rightarrow> df_row list \<Rightarrow> error + df_row list"
where
  "for_rows body [] df = Inr df"
| "for_rows body (i # rest) df =
     (case body i df of Inl e \<Rightarrow> Inl e | Inr df' \<Rightarrow> for_rows body rest df')"

subsection \<open>The constructor\<close>

text \<open>
  \<open>__init__\<close>: no ladder yet, a frame of \<open>row_count\<close> rows of empty strings, both cursors
  at 0. The two data frames read from the database are the arguments \<open>qs\<close> and \<open>ts\<close>.
\<close>

definition empty_row :: df_row where
  "empty_row = \<lparr>c0 = [], c1 = [], c2 = [], c3 = [], c4 = []\<rparr>"

definition init :: "ladder_config \<Rightarrow> quote list \<Rightarrow> trade list \<Rightarrow> market_data" where
  "init cfg qs ts =
     \<lparr>config = cfg, price_ladder = None,
      price_ladder_df = replicate (row_count cfg) empty_row,
      quotes_row = 0, trades_row = 0, quotes_df = qs, trades_df = ts\<rparr>"

subsection \<open>\<open>_update_quote\<close>\<close>

text \<open>
  The condition of the reset: the first quote, or an ask more than half a tick above the
  first level, or a bid more than half a tick below the last level. The \<open>or\<close> is
  short-circuit, so the ladder is read only when the cursor is not 0.
\<close>

definition reset_needed :: "market_data \<Rightarrow> quote \<Rightarrow> error + bool" where
  "reset_needed s q =
     (if quotes_row s = 0 then Inr True
      else
        (case ladder_at (price_ladder s) 0 of
           Inl e \<Rightarrow> Inl e
         | Inr first_level \<Rightarrow>
             if ask_price q > fadd first_level (fmul (5 / 10) (tick_size (config s)))
             then Inr True
             else
               (case ladder_last (price_ladder s) of
                  Inl e \<Rightarrow> Inl e
                | Inr last_level \<Rightarrow>
                    Inr (bid_price q
                           < fsub last_level (fmul (5 / 10) (tick_size (config s)))))))"

text \<open>
  The body of the reset: the new first level (\<open>(row_count - 1) / 2\<close> is a true division
  of integers, \<open>np.floor\<close> of it a double), the new levels, columns 0, 1, 3, 4 emptied
  and column 2 assigned the formatted levels (a list of another length than the frame
  is a \<open>ValueError\<close>).
\<close>

definition max_price :: "ladder_config \<Rightarrow> quote \<Rightarrow> rat" where
  "max_price cfg q =
     fadd (ask_price q)
       (fmul (tick_size cfg) (of_int \<lfloor>rnd (of_int (int (row_count cfg) - 1) / 2)\<rfloor>))"

definition new_ladder :: "ladder_config \<Rightarrow> quote \<Rightarrow> rat list" where
  "new_ladder cfg q =
     linspace (max_price cfg q)
       (fsub (max_price cfg q) (fmul (float_of_int (int (row_count cfg) - 1)) (tick_size cfg)))
       (row_count cfg)"

definition clear_0134 :: "df_row \<Rightarrow> df_row" where
  "clear_0134 r = r\<lparr>c0 := [], c1 := [], c3 := [], c4 := []\<rparr>"

definition reset_ladder :: "market_data \<Rightarrow> quote \<Rightarrow> error + market_data" where
  "reset_ladder s q =
     (let ladder = new_ladder (config s) q;
          cleared = map clear_0134 (price_ladder_df s);
          labels = map (price_format (config s)) ladder
      in if length labels \<noteq> length cleared then Inl ValueError
         else Inr (s\<lparr>price_ladder := Some ladder,
                     price_ladder_df := map (\<lambda>(r, l). r\<lparr>c2 := l\<rparr>) (zip cleared labels)\<rparr>))"

text \<open>One iteration of the loop over the rows: the ask size, then the bid size.\<close>

definition quote_cells :: "quote \<Rightarrow> rat \<Rightarrow> df_row \<Rightarrow> df_row" where
  "quote_cells q level r =
     r\<lparr>c3 := (if isclose level (ask_price q) then str_int (ask_size q) else []),
       c1 := (if isclose level (bid_price q) then str_int (bid_size q) else [])\<rparr>"

definition quote_body :: "rat list option \<Rightarrow> quote \<Rightarrow> nat \<Rightarrow> df_row list \<Rightarrow> error + df_row list" where
  "quote_body pl q i df =
     (case ladder_at pl i of
        Inl e \<Rightarrow> Inl e
      | Inr level \<Rightarrow>
          (case iloc df i of
             Inl e \<Rightarrow> Inl e
           | Inr r \<Rightarrow> Inr (df[i := quote_cells q level r])))"

definition update_quote :: "market_data \<Rightarrow> error + market_data" where
  "update_quote s =
     (case loc (quotes_df s) (quotes_row s) of
        Inl e \<Rightarrow> Inl e
      | Inr q \<Rightarrow>
          (case reset_needed s q of
             Inl e \<Rightarrow> Inl e
           | Inr b \<Rightarrow>
               (case (if b then reset_ladder s q else Inr s) of
                  Inl e \<Rightarrow> Inl e
                | Inr s1 \<Rightarrow>
                    (case for_rows (quote_body (price_ladder s1) q)
                            [0..<row_count (config s1)] (price_ladder_df s1) of
                       Inl e \<Rightarrow> Inl e
                     | Inr df \<Rightarrow>
                         Inr (s1\<lparr>price_ladder_df := df, quotes_row := quotes_row s1 + 1\<rparr>)))))"

subsection \<open>\<open>_update_trade\<close>\<close>

text \<open>
  The cells of one row whose level is close to the trade price: with a bid size in
  column 1 the volume goes to column 0, added to what is there, and column 4 is emptied;
  otherwise with an ask size in column 3 the volume goes to column 4 and column 0 is
  emptied; with neither, the \<open>if\<close>/\<open>elif\<close> has no branch and the row is left as it is.
  The volume read from the frame is a numpy \<open>int64\<close>, so \<open>volume += int(...)\<close> is a 64-bit
  addition that wraps around. (The cells it reads were written by \<open>str\<close> of such a
  value; a cell holding digits beyond that range does not occur.)
\<close>

definition wrap_int64 :: "int \<Rightarrow> int" where
  "wrap_int64 x = (x + 2 ^ 63) mod 2 ^ 64 - 2 ^ 63"

definition add_cell :: "int \<Rightarrow> string \<Rightarrow> error + int" where
  "add_cell v cell =
     (if cell \<noteq> []
      then (case py_int cell of Inl e \<Rightarrow> Inl e | Inr n \<Rightarrow> Inr (wrap_int64 (v + n)))
      else Inr v)"

definition trade_match :: "trade \<Rightarrow> df_row \<Rightarrow> error + df_row" where
  "trade_match t r =
     (if c1 r \<noteq> [] then
        (case add_cell (volume t) (c0 r) of
           Inl e \<Rightarrow> Inl e
         | Inr v \<Rightarrow> Inr (r\<lparr>c0 := str_int v, c4 := []\<rparr>))
      else if c3 r \<noteq> [] then
        (case add_cell (volume t) (c4 r) of
           Inl e \<Rightarrow> Inl e
         | Inr v \<Rightarrow> Inr (r\<lparr>c0 := [], c4 := str_int v\<rparr>))
      else Inr r)"

definition trade_cells :: "trade \<Rightarrow> rat \<Rightarrow> df_row \<Rightarrow> error + df_row" where
  "trade_cells t level r =
     (if isclose level (price t) then trade_match t r else Inr (r\<lparr>c0 := [], c4 := []\<rparr>))"

definition trade_body ::
  "rat list option \<Rightarrow> error + trade \<Rightarrow> nat \<Rightarrow> df_row list \<Rightarrow> error + df_row list" where
  "trade_body pl lt i df =
     (case ladder_at pl i of
        Inl e \<Rightarrow> Inl e
      | Inr level \<Rightarrow>
          (case lt of
             Inl e \<Rightarrow> Inl e
           | Inr t \<Rightarrow>
               (case iloc df i of
                  Inl e \<Rightarrow> Inl e
                | Inr r \<Rightarrow>
                    (case trade_cells t level r of
                       Inl e \<Rightarrow> Inl e
                     | Inr r' \<Rightarrow> Inr (df[i := r'])))))"

definition update_trade :: "market_data \<Rightarrow> error + market_data" where
  "update_trade s =
     (case (if 0 < quotes_row s
            then for_rows (trade_body (price_ladder s) (loc (trades_df s) (trades_row s)))
                   [0..<row_count (config s)] (price_ladder_df s)
            else Inr (price_ladder_df s)) of
        Inl e \<Rightarrow> Inl e
      | Inr df \<Rightarrow>
          (case iloc (trades_df s) (trades_row s) of
             Inl e \<Rightarrow> Inl e
           | Inr t \<Rightarrow> Inr (s\<lparr>price_ladder_df := df, trades_row := trades_row s + 1\<rparr>)))"

subsection \<open>\<open>get_next_price_ladder_df\<close> and \<open>get_price_ladder_time_elapsed\<close>\<close>

text \<open>
  The end test compares the cursor with \<open>len(...) - 1\<close> on Python integers, so the
  subtraction is on \<open>int\<close>. Where the two times are compared neither stream is at its
  end, so both \<open>.loc\<close> reads are in range and are written as plain indexing.
\<close>

definition quotes_done :: "market_data \<Rightarrow> bool" where
  "quotes_done s = (int (quotes_row s) > int (length (quotes_df s)) - 1)"

definition trades_done :: "market_data \<Rightarrow> bool" where
  "trades_done s = (int (trades_row s) > int (length (trades_df s)) - 1)"

definition get_next_price_ladder_df ::
  "market_data \<Rightarrow> error + (df_row list option \<times> market_data)" where
  "get_next_price_ladder_df s =
     (if quotes_done s \<and> trades_done s then Inr (None, s)
      else
        (case (if quotes_done s then update_trade s
               else if trades_done s then update_quote s
               else if quote_time_value (quotes_df s ! quotes_row s)
                         < trade_time_value (trades_df s ! trades_row s)
                    then update_quote s
               else update_trade s) of
           Inl e \<Rightarrow> Inl e
         | Inr s' \<Rightarrow> Inr (Some (price_ladder_df s'), s')))"

definition get_price_ladder_time_elapsed :: "market_data \<Rightarrow> error + int" where
  "get_price_ladder_time_elapsed s =
     (if quotes_done s \<and> trades_done s then Inr 0
      else
        (case loc (quotes_df s) 0 of
           Inl e \<Rightarrow> Inl e
         | Inr q0 \<Rightarrow>
        (case loc (trades_df s) 0 of
           Inl e \<Rightarrow> Inl e
         | Inr t0 \<Rightarrow>
        (case loc (quotes_df s) (quotes_row s) of
           Inl e \<Rightarrow> Inl e
         | Inr q \<Rightarrow>
        (case loc (trades_df s) (trades_row s) of
           Inl e \<Rightarrow> Inl e
         | Inr t \<Rightarrow>
             Inr (min (quote_time_value q) (trade_time_value t)
                  - min (quote_time_value q0) (trade_time_value t0)))))))"

subsection \<open>Row-wise view of the two loops\<close>

text \<open>
  What one iteration computes for the row it visits; the loops are shown below to apply
  it to every row independently.
\<close>

definition quote_row :: "rat list option \<Rightarrow> quote \<Rightarrow> nat \<Rightarrow> df_row \<Rightarrow> error + df_row" where
  "quote_row pl q i r =
     (case ladder_at pl i of Inl e \<Rightarrow> Inl e | Inr level \<Rightarrow> Inr (quote_cells q level r))"

definition trade_row :: "rat list option \<Rightarrow> error + trade \<Rightarrow> nat \<Rightarrow> df_row \<Rightarrow> error + df_row" where
  "trade_row pl lt i r =
     (case ladder_at pl i of
        Inl e \<Rightarrow> Inl e
      | Inr level \<Rightarrow> (case lt of Inl e \<Rightarrow> Inl e | Inr t \<Rightarrow> trade_cells t level r))"

text \<open>A cell that \<open>int(...)\<close> accepts whenever it is not empty.\<close>

definition cell_ok :: "string \<Rightarrow> bool" where
  "cell_ok c = (c = [] \<or> (\<exists>v. py_int c = Inr v))"

text \<open>
  The consistency of a state: the frame has \<open>row_count\<close> rows, the ladder has
  \<open>row_count\<close> levels once a quote was consumed, the two volume cells of every row are
  empty or hold an integer, and no cursor is beyond its stream.
\<close>

definition inv :: "market_data \<Rightarrow> bool" where
  "inv s =
     (length (price_ladder_df s) = row_count (config s) \<and>
      (0 < quotes_row s \<longrightarrow>
         (\<exists>l. price_ladder s = Some l \<and> length l = row_count (config s))) \<and>
      (\<forall>r\<in>set (price_ladder_df s). cell_ok (c0 r) \<and> cell_ok (c4 r)) \<and>
      quotes_row s \<le> length (quotes_df s) \<and> trades_row s \<le> length (trades_df s))"

text \<open>No row with a volume in column 0 and in column 4.\<close>

definition one_sided :: "df_row list \<Rightarrow> bool" where
  "one_sided df = (\<forall>r\<in>set df. c0 r = [] \<or> c4 r = [])"

subsection \<open>Driving the engine\<close>

text \<open>
  The states that calls of \<open>get_next_price_ladder_df\<close> reach from a state \<open>s0\<close>; a call
  that raises reaches nothing.
\<close>

inductive reachable :: "market_data \<Rightarrow> market_data \<Rightarrow> bool" for s0 :: market_data where
  reachable_start: "reachable s0 s0"
| reachable_next:
    "reachable s0 s \<Longrightarrow> get_next_price_ladder_df s = Inr (r, s') \<Longrightarrow> reachable s0 s'"

subsection \<open>A replay used as running example\<close>

text \<open>
  Three rows, tick size 1, two quotes and two trades with times 1, 2, 3, 4, and the
  states the four steps go through. \<open>view\<close> is the part of a state that a step changes.
\<close>

definition view :: "market_data \<Rightarrow> rat list option \<times> df_row list \<times> nat \<times> nat" where
  "view s = (price_ladder s, price_ladder_df s, quotes_row s, trades_row s)"

definition ex_cfg :: ladder_config where
  "ex_cfg = \<lparr>row_count = 3, tick_size = 1, price_format = (\<lambda>p. str_int \<lfloor>p\<rfloor>)\<rparr>"

definition ex_quotes :: "quote list" where
  "ex_quotes =
     [\<lparr>quote_time_value = 1, bid_price = 100, bid_size = 10, ask_price = 101, ask_size = 5\<rparr>,
      \<lparr>quote_time_value = 3, bid_price = 101, bid_size = 7, ask_price = 102, ask_size = 4\<rparr>]"

definition ex_trades :: "trade list" where
  "ex_trades =
     [\<lparr>trade_time_value = 2, price = 100, volume = 3\<rparr>,
      \<lparr>trade_time_value = 4, price = 100, volume = 2\<rparr>]"

definition ex_state :: "df_row list \<Rightarrow> nat \<Rightarrow> nat \<Rightarrow> market_data" where
  "ex_state df qr tr =
     \<lparr>config = ex_cfg, price_ladder = Some [102, 101, 100], price_ladder_df = df,
      quotes_row = qr, trades_row = tr, quotes_df = ex_quotes, trades_df = ex_trades\<rparr>"

definition ex_s0 :: market_data where
  "ex_s0 = init ex_cfg ex_quotes ex_trades"

definition ex_s1 :: market_data where
  "ex_s1 = ex_state
     [\<lparr>c0 = [], c1 = [], c2 = ''102'', c3 = [], c4 = []\<rparr>,
      \<lparr>c0 = [], c1 = [], c2 = ''101'', c3 = ''5'', c4 = []\<rparr>,
      \<lparr>c0 = [], c1 = ''10'', c2 = ''100'', c3 = [], c4 = []\<rparr>] 1 0"

definition ex_s2 :: market_data where
  "ex_s2 = ex_state
     [\<lparr>c0 = [], c1 = [], c2 = ''102'', c3 = [], c4 = []\<rparr>,
      \<lparr>c0 = [], c1 = [], c2 = ''101'', c3 = ''5'', c4 = []\<rparr>,
      \<lparr>c0 = ''3'', c1 = ''10'', c2 = ''100'', c3 = [], c4 = []\<rparr>] 1 1"

definition ex_s3 :: market_data where
  "ex_s3 = ex_state
     [\<lparr>c0 = [], c1 = [], c2 = ''102'', c3 = ''4'', c4 = []\<rparr>,
      \<lparr>c0 = [], c1 = ''7'', c2 = ''101'', c3 = [], c4 = []\<rparr>,
      \<lparr>c0 = ''3'', c1 = [], c2 = ''100'', c3 = [], c4 = []\<rparr>] 2 1"

definition ex_s4 :: market_data where
  "ex_s4 = ex_state
     [\<lparr>c0 = [], c1 = [], c2 = ''102'', c3 = ''4'', c4 = []\<rparr>,
      \<lparr>c0 = [], c1 = ''7'', c2 = ''101'', c3 = [], c4 = []\<rparr>,
      \<lparr>c0 = ''3'', c1 = [], c2 = ''100'', c3 = [], c4 = []\<rparr>] 2 2"

subsection \<open>Observing the replay\<close>

text \<open>
  The record a successful step consumed, read off from the cursor that moved, and a
  driver that calls the step until it returns none or \<open>n\<close> calls were made, collecting
  the consumed records in the order of the calls.
\<close>

datatype event = QuoteEvent quote | TradeEvent trade

definition applied :: "market_data \<Rightarrow> market_data \<Rightarrow> event" where
  "applied s s' =
     (if quotes_row s' \<noteq> quotes_row s then QuoteEvent (quotes_df s ! quotes_row s)
      else TradeEvent (trades_df s ! trades_row s))"

fun run :: "nat \<Rightarrow> market_data \<Rightarrow> error + (event list \<times> market_data)" where
  "run 0 s = Inr ([], s)"
| "run (Suc n) s =
     (case get_next_price_ladder_df s of
        Inl e \<Rightarrow> Inl e
      | Inr (None, s') \<Rightarrow> Inr ([], s')
      | Inr (Some df, s') \<Rightarrow>
          (case run n s' of
             Inl e \<Rightarrow> Inl e
           | Inr (evs, s'') \<Rightarrow> Inr (applied s s' # evs, s'')))"

text \<open>
  The order in which the step consumes records: by time, and at equal times a trade
  before a quote.
\<close>

fun event_time :: "event \<Rightarrow> int" where
  "event_time (QuoteEvent q) = quote_time_value q"
| "event_time (TradeEvent t) = trade_time_value t"

fun is_quote :: "event \<Rightarrow> bool" where
  "is_quote (QuoteEvent q) = True"
| "is_quote (TradeEvent t) = False"

fun is_trade :: "event \<Rightarrow> bool" where
  "is_trade (QuoteEvent q) = False"
| "is_trade (TradeEvent t) = True"

definition chronological :: "event \<Rightarrow> event \<Rightarrow> bool" where
  "chronological e1 e2 =
     (event_time e1 < event_time e2 \<or>
      event_time e1 = event_time e2 \<and> (is_trade e1 \<or> is_quote e2))"

text \<open>The quotes and the trades among the consumed records, in the order of consumption.\<close>

fun quotes_of :: "event list \<Rightarrow> quote list" where
  "quotes_of [] = []"
| "quotes_of (QuoteEvent q # es) = q # quotes_of es"
| "quotes_of (TradeEvent t # es) = quotes_of es"

fun trades_of :: "event list \<Rightarrow> trade list" where
  "trades_of [] = []"
| "trades_of (QuoteEvent q # es) = trades_of es"
| "trades_of (TradeEvent t # es) = t # trades_of es"

text \<open>The records not yet consumed in a state, as events.\<close>

definition pending :: "market_data \<Rightarrow> event set" where
  "pending s =
     {QuoteEvent (quotes_df s ! i) | i. quotes_row s \<le> i \<and> i < length (quotes_df s)} \<union>
     {TradeEvent (trades_df s ! j) | j. trades_row s \<le> j \<and> j < length (trades_df s)}"

definition remaining :: "market_data \<Rightarrow> nat" where
  "remaining s =
     (length (quotes_df s) - quotes_row s) + (length (trades_df s) - trades_row s)"

subsection \<open>Two more replays: a tie, and a stream out of order\<close>

text \<open>
  A quote and a trade with the same time 5; and the quotes of the running example in
  reverse order, so that the second record (time 1) is older than the first (time 3).
\<close>

definition tie_quotes :: "quote list" where
  "tie_quotes =
     [\<lparr>quote_time_value = 5, bid_price = 100, bid_size = 10, ask_price = 101, ask_size = 5\<rparr>]"

definition tie_trades :: "trade list" where
  "tie_trades = [\<lparr>trade_time_value = 5, price = 100, volume = 3\<rparr>]"

definition late_quotes :: "quote list" where
  "late_quotes =
     [\<lparr>quote_time_value = 3, bid_price = 101, bid_size = 7, ask_price = 102, ask_size = 4\<rparr>,
      \<lparr>quote_time_value = 1, bid_price = 100, bid_size = 10, ask_price = 101, ask_size = 5\<rparr>]"

subsection \<open>Two grids for the row test and the reset\<close>








section \<open>Library lemmas\<close>

lemma pow2_powi: "pow2 e = 2 powi e"
  by (simp add: pow2_def power_int_def inverse_eq_divide power_one_over)

lemma pow2_pos [simp]: "0 < pow2 e"
  by (simp add: pow2_powi)

lemma pow2_add: "pow2 (a + b) = pow2 a * pow2 b"
  by (simp add: pow2_powi power_int_add)

lemma pow2_mono: "a \<le> b \<Longrightarrow> pow2 a \<le> pow2 b"
  by (simp add: pow2_powi power_int_increasing)

lemma pow2_strict_mono: "a < b \<Longrightarrow> pow2 a < pow2 b"
  by (simp add: pow2_powi power_int_strict_increasing)

lemma pow2_nat: "0 \<le> e \<Longrightarrow> pow2 e = of_int (2 ^ nat e)"
  by (simp add: pow2_def)

lemma bitlen_nonneg: "0 \<le> bitlen n"
  by (induction n rule: bitlen.induct) (subst bitlen.simps, auto)

lemma bitlen_pos: "0 < n \<Longrightarrow> 0 < bitlen n"
  using bitlen_nonneg [of "n div 2"] by (subst bitlen.simps) auto

lemma bitlen_bounds:
  "0 < n \<Longrightarrow> 2 ^ nat (bitlen n - 1) \<le> n \<and> n < 2 ^ nat (bitlen n)"
proof (induction n rule: bitlen.induct)
  case (1 n)
  show ?case
  proof (cases "n = 1")
    case True
    have "bitlen 1 = 1" by (simp add: bitlen.simps [of 1] bitlen.simps [of 0])
    with True show ?thesis by simp
  next
    case False
    with 1 have h: "0 < n div 2" by auto
    with 1 have ih: "2 ^ nat (bitlen (n div 2) - 1) \<le> n div 2" "n div 2 < 2 ^ nat (bitlen (n div 2))"
      by auto
    have b: "bitlen n = 1 + bitlen (n div 2)" using 1(2) by (subst bitlen.simps) simp
    from bitlen_pos [OF h] have p: "nat (bitlen n) = Suc (nat (bitlen (n div 2)))"
      "nat (bitlen n - 1) = Suc (nat (bitlen (n div 2) - 1))"
      unfolding b by auto
    show ?thesis unfolding p using ih by auto
  qed
qed

lemma ilog2_bounds:
  assumes "0 < x"
  shows "pow2 (ilog2 x) \<le> x \<and> x < pow2 (ilog2 x + 1)"
proof -
  obtain p q where pq: "quotient_of x = (p, q)" by (cases "quotient_of x")
  then have q: "0 < q" and x: "x = of_int p / of_int q"
    using quotient_of_denom_pos quotient_of_div by blast+
  with assms have p: "0 < p" by (simp add: zero_less_divide_iff)
  let ?bp = "bitlen p" and ?bq = "bitlen q"
  let ?d = "?bp - ?bq"
  note bp = bitlen_bounds [OF p] and bq = bitlen_bounds [OF q]
  note pp = bitlen_pos [OF p] and qp = bitlen_pos [OF q]
  have P1: "pow2 (?bp - 1) \<le> of_int p" using bp pp
    by (simp add: pow2_nat del: of_int_power)
  have P2: "of_int p < pow2 ?bp" using bp pp
    by (simp add: pow2_nat del: of_int_power)
  have Q1: "pow2 (?bq - 1) \<le> of_int q" using bq qp
    by (simp add: pow2_nat del: of_int_power)
  have Q2: "of_int q < pow2 ?bq" using bq qp
    by (simp add: pow2_nat del: of_int_power)
  have qpos: "(0::rat) < of_int q" using q by simp
  have up: "x < pow2 (?d + 1)"
  proof -
    have "of_int p < pow2 ?bp" by (rule P2)
    also have "pow2 ?bp = pow2 (?d + 1) * pow2 (?bq - 1)"
      by (simp add: pow2_add [symmetric])
    also have "\<dots> \<le> pow2 (?d + 1) * of_int q"
      using Q1 by (simp add: mult_left_mono)
    finally show ?thesis using qpos by (simp add: x pos_divide_less_eq)
  qed
  have lo: "pow2 (?d - 1) < x"
  proof -
    have "pow2 (?d - 1) * of_int q < pow2 (?d - 1) * pow2 ?bq"
      using Q2 by (simp add: mult_strict_left_mono)
    also have "\<dots> = pow2 (?bp - 1)" by (simp add: pow2_add [symmetric])
    also have "\<dots> \<le> of_int p" by (rule P1)
    finally show ?thesis using qpos by (simp add: x pos_less_divide_eq)
  qed
  show ?thesis
  proof (cases "pow2 ?d \<le> x")
    case True
    then have "ilog2 x = ?d" by (simp add: ilog2_def pq)
    with True up show ?thesis by simp
  next
    case False
    then have "ilog2 x = ?d - 1" by (simp add: ilog2_def pq)
    with False lo show ?thesis by simp
  qed
qed

lemma ilog2_unique:
  assumes "pow2 k \<le> x" and "x < pow2 (k + 1)"
  shows "ilog2 x = k"
proof -
  from assms(1) have "0 < x" using pow2_pos [of k] by linarith
  note b = ilog2_bounds [OF this]
  have "\<not> ilog2 x < k"
  proof
    assume "ilog2 x < k"
    then have "pow2 (ilog2 x + 1) \<le> pow2 k" by (intro pow2_mono) simp
    with b assms show False by linarith
  qed
  moreover have "\<not> k < ilog2 x"
  proof
    assume "k < ilog2 x"
    then have "pow2 (k + 1) \<le> pow2 (ilog2 x)" by (intro pow2_mono) simp
    with b assms show False by linarith
  qed
  ultimately show ?thesis by simp
qed

lemma round_even_of_int [simp]: "round_even (of_int k) = k"
  by (simp add: round_even_def)

lemma round_even_le: "y \<le> of_int n \<Longrightarrow> round_even y \<le> n"
  by (auto simp: round_even_def Let_def floor_le_iff le_floor_iff)

lemma round_even_ge_floor: "\<lfloor>y\<rfloor> \<le> round_even y"
  by (simp add: round_even_def Let_def)

lemma round_even_ge: "of_int n \<le> y \<Longrightarrow> n \<le> round_even y"
proof -
  assume "of_int n \<le> y"
  then have "n \<le> \<lfloor>y\<rfloor>" by (simp add: le_floor_iff)
  with round_even_ge_floor [of y] show ?thesis by linarith
qed

lemma rnd_exact:
  assumes "x \<noteq> 0"
    and "x = of_int m * pow2 (max (ilog2 \<bar>x\<bar>) (- 1022) - 52)"
  shows "rnd x = x"
proof -
  let ?u = "pow2 (max (ilog2 \<bar>x\<bar>) (- 1022) - 52)"
  have "x / ?u = of_int m"
    using assms(2) pow2_pos [of "max (ilog2 \<bar>x\<bar>) (- 1022) - 52"]
    by (metis less_irrefl nonzero_eq_divide_eq)
  with assms show ?thesis by (simp add: rnd_def Let_def)
qed

lemma pow2_53: "of_int (2 ^ 53) * pow2 (e - 52) = pow2 (e + 1)"
proof -
  have "pow2 (e + 1) = pow2 (53 + (e - 52))" by (rule arg_cong [where f = pow2]) simp
  also have "\<dots> = pow2 53 * pow2 (e - 52)" by (rule pow2_add)
  also have "pow2 53 = of_int (2 ^ 53)" by (simp add: pow2_def)
  finally show ?thesis by simp
qed

lemma rnd_idem: "rnd (rnd x) = rnd x"
proof (cases "x = 0")
  case True
  then show ?thesis by (simp add: rnd_def)
next
  case False
  define e where "e = max (ilog2 \<bar>x\<bar>) (- 1022)"
  define u where "u = pow2 (e - 52)"
  define m where "m = round_even (x / u)"
  define y where "y = of_int m * u"
  have y: "rnd x = y" using False by (simp add: rnd_def Let_def e_def u_def m_def y_def)
  have u: "0 < u" by (simp add: u_def)
  have e: "- 1022 \<le> e" "ilog2 \<bar>x\<bar> \<le> e" by (simp_all add: e_def)
  from False have "0 < \<bar>x\<bar>" by simp
  from ilog2_bounds [OF this] have "\<bar>x\<bar> < pow2 (ilog2 \<bar>x\<bar> + 1)" by simp
  also have "\<dots> \<le> pow2 (e + 1)" using e by (intro pow2_mono) simp
  also have "\<dots> = of_int (2 ^ 53) * u"
    unfolding u_def by (rule pow2_53 [symmetric])
  finally have xb: "\<bar>x\<bar> < of_int (2 ^ 53) * u" .
  then have b1: "x / u \<le> of_int (2 ^ 53)" and b2: "of_int (- (2 ^ 53)) \<le> x / u"
    using u by (simp_all add: pos_divide_le_eq pos_le_divide_eq abs_less_iff)
  have mb: "m \<le> 2 ^ 53" "- (2 ^ 53) \<le> m"
    unfolding m_def using round_even_le [OF b1] round_even_ge [OF b2] by simp_all
  show ?thesis
  proof (cases "m = 0")
    case True
    then have "y = 0" by (simp add: y_def)
    moreover have "rnd 0 = 0" by (simp add: rnd_def)
    ultimately show ?thesis unfolding y by simp
  next
    case m0: False
    then have y0: "y \<noteq> 0" using u by (simp add: y_def)
    have ay: "\<bar>y\<bar> = of_int \<bar>m\<bar> * u" using u by (simp add: y_def abs_mult)
    define ey where "ey = max (ilog2 \<bar>y\<bar>) (- 1022)"
    have "\<exists>k. y = of_int k * pow2 (ey - 52)"
    proof (cases "\<bar>m\<bar> = 2 ^ 53")
      case True
      then have "\<bar>y\<bar> = of_int (2 ^ 53) * pow2 (e - 52)"
        by (simp only: ay u_def)
      then have "\<bar>y\<bar> = pow2 (e + 1)"
        by (simp only: pow2_53)
      then have "pow2 (e + 1) \<le> \<bar>y\<bar>" "\<bar>y\<bar> < pow2 (e + 1 + 1)"
        using pow2_strict_mono [of "e + 1" "e + 1 + 1"] by simp_all
      from ilog2_unique [OF this] e have ey: "ey = e + 1" by (simp add: ey_def)
      from True have "m = 2 ^ 53 \<or> m = - (2 ^ 53)" by linarith
      then have ev: "m = 2 * (m div 2)" by auto
      have "pow2 (e + 1 - 52) = 2 * u"
        using pow2_add [of 1 "e - 52"] by (simp add: u_def pow2_def)
      then have "y = of_int (m div 2) * pow2 (ey - 52)"
        unfolding ey y_def by (subst ev) simp
      then show ?thesis ..
    next
      case False
      with mb have "\<bar>m\<bar> < 2 ^ 53" by linarith
      then have "(of_int \<bar>m\<bar> :: rat) < of_int (2 ^ 53)" by (simp only: of_int_less_iff)
      then have "\<bar>y\<bar> < of_int (2 ^ 53) * u" using u by (simp add: ay del: of_int_abs of_int_power)
      also have "\<dots> = pow2 (e + 1)"
        unfolding u_def by (rule pow2_53)
      finally have yb: "\<bar>y\<bar> < pow2 (e + 1)" .
      have "ilog2 \<bar>y\<bar> \<le> e"
      proof (rule ccontr)
        assume "\<not> ilog2 \<bar>y\<bar> \<le> e"
        then have "pow2 (e + 1) \<le> pow2 (ilog2 \<bar>y\<bar>)" by (intro pow2_mono) simp
        moreover from y0 have "pow2 (ilog2 \<bar>y\<bar>) \<le> \<bar>y\<bar>" using ilog2_bounds [of "\<bar>y\<bar>"] by simp
        ultimately show False using yb by linarith
      qed
      with e have le: "ey \<le> e" by (simp add: ey_def)
      then have "u = pow2 (e - ey) * pow2 (ey - 52)"
        by (simp add: u_def pow2_add [symmetric])
      also from le have "pow2 (e - ey) = of_int (2 ^ nat (e - ey))" by (simp add: pow2_nat)
      finally have "y = of_int (m * 2 ^ nat (e - ey)) * pow2 (ey - 52)"
        by (simp add: y_def)
      then show ?thesis ..
    qed
    then obtain k where "y = of_int k * pow2 (max (ilog2 \<bar>y\<bar>) (- 1022) - 52)"
      unfolding ey_def ..
    from rnd_exact [OF y0 this] show ?thesis unfolding y .
  qed
qed

lemma rnd_0 [simp]: "rnd 0 = 0"
  by (simp add: rnd_def)






lemma fadd_double [simp]: "rnd (fadd a b) = fadd a b"
  by (simp add: fadd_def rnd_idem)

lemma fsub_double [simp]: "rnd (fsub a b) = fsub a b"
  by (simp add: fsub_def rnd_idem)

lemma length_linspace: "length (linspace a b n) = n"
  by (simp add: linspace_def Let_def)




lemma digit_char_props: "d < 10 \<Longrightarrow> is_digit (digit_char d) \<and> digit_val (digit_char d) = d"
  by (simp add: is_digit_def digit_val_def digit_char_def)

lemma str_nat_props:
  "str_nat n \<noteq> [] \<and> list_all is_digit (str_nat n)
   \<and> foldl (\<lambda>a c. 10 * a + digit_val c) 0 (str_nat n) = n"
proof (induction n rule: str_nat.induct)
  case (1 n)
  show ?case
  proof (cases "n < 10")
    case True
    then show ?thesis using digit_char_props [of n] by (simp add: str_nat.simps [of n])
  next
    case False
    have "n mod 10 < 10" by simp
    with False 1 digit_char_props [of "n mod 10"] show ?thesis
      by (simp add: str_nat.simps [of n])
  qed
qed

lemma parse_nat_str_nat: "parse_nat (str_nat n) = Inr n"
  using str_nat_props [of n] by (simp add: parse_nat_def)

lemma str_nat_hd: "\<exists>c r. str_nat n = c # r \<and> is_digit c"
  using str_nat_props [of n] by (cases "str_nat n") auto


lemma py_int_str_int: "py_int (str_int v) = Inr v"
proof (cases "v < 0")
  case True
  then show ?thesis by (simp add: py_int_def str_int_def parse_nat_str_nat)
next
  case False
  obtain c r where cr: "str_nat (nat v) = c # r" "is_digit c" using str_nat_hd by blast
  then have "c \<noteq> CHR ''-''" "c \<noteq> CHR ''+''" by (auto simp: is_digit_def)
  with False cr show ?thesis
    using parse_nat_str_nat [of "nat v"] by (simp add: py_int_def str_int_def)
qed

lemma length_new_ladder: "length (new_ladder cfg q) = row_count cfg"
  by (simp add: new_ladder_def length_linspace)

lemma for_rows_append:
  "for_rows body (xs @ ys) df =
     (case for_rows body xs df of Inl e \<Rightarrow> Inl e | Inr df' \<Rightarrow> for_rows body ys df')"
  by (induction xs arbitrary: df) (auto split: sum.splits)

lemma for_rows_upt:
  assumes loc: "\<And>i df df'. (body i df = Inr df') =
                  (i < length df \<and> (\<exists>r. f i (df ! i) = Inr r \<and> df' = df[i := r]))"
  shows "(for_rows body [0..<n] df = Inr df') =
           (n \<le> length df \<and> length df' = length df \<and>
            (\<forall>i<length df. if i < n then f i (df ! i) = Inr (df' ! i) else df' ! i = df ! i))"
proof (induction n arbitrary: df')
  case 0
  show ?case by (auto simp: list_eq_iff_nth_eq)
next
  case (Suc n)
  have "(for_rows body [0..<Suc n] df = Inr df') =
        (\<exists>df1. for_rows body [0..<n] df = Inr df1 \<and> body n df1 = Inr df')"
    by (auto simp: for_rows_append split: sum.splits)
  also have "\<dots> = (Suc n \<le> length df \<and> length df' = length df \<and>
            (\<forall>i<length df. if i < Suc n then f i (df ! i) = Inr (df' ! i) else df' ! i = df ! i))"
    (is "?L = ?R")
  proof
    assume ?L
    then obtain df1 where a: "for_rows body [0..<n] df = Inr df1" and b: "body n df1 = Inr df'"
      by blast
    from a Suc.IH [of df1] have c: "n \<le> length df" "length df1 = length df"
      "\<forall>i<length df. if i < n then f i (df ! i) = Inr (df1 ! i) else df1 ! i = df ! i" by auto
    from b loc obtain r where d: "n < length df1" "f n (df1 ! n) = Inr r" "df' = df1[n := r]"
      by blast
    show ?R using c d by (auto simp: nth_list_update less_Suc_eq)
  next
    assume r: ?R
    let ?df1 = "df'[n := df ! n]"
    have "for_rows body [0..<n] df = Inr ?df1"
      using r by (subst Suc.IH) (auto simp: nth_list_update)
    moreover have "body n ?df1 = Inr df'"
      using r by (subst loc) (auto simp: list_eq_iff_nth_eq nth_list_update intro!: exI [of _ "df' ! n"])
    ultimately show ?L by blast
  qed
  finally show ?case .
qed

lemma quote_body_iff:
  "(quote_body pl q i df = Inr df') =
     (i < length df \<and> (\<exists>r. quote_row pl q i (df ! i) = Inr r \<and> df' = df[i := r]))"
  by (auto simp: quote_body_def quote_row_def iloc_def split: sum.splits)

lemma trade_body_iff:
  "(trade_body pl lt i df = Inr df') =
     (i < length df \<and> (\<exists>r. trade_row pl lt i (df ! i) = Inr r \<and> df' = df[i := r]))"
  by (auto simp: trade_body_def trade_row_def iloc_def split: sum.splits)

lemmas quote_loop_iff = for_rows_upt [of "quote_body pl q" "quote_row pl q" for pl q, OF quote_body_iff]
lemmas trade_loop_iff = for_rows_upt [of "trade_body pl lt" "trade_row pl lt" for pl lt, OF trade_body_iff]

lemma bind_Inr_iff:
  "((case x of Inl e \<Rightarrow> Inl e | Inr v \<Rightarrow> g v) = Inr y) = (\<exists>v. x = Inr v \<and> g v = Inr y)"
  by (cases x) auto

lemma update_trade_iff:
  "(update_trade s = Inr s') =
     (trades_row s < length (trades_df s) \<and>
      (\<exists>df'. s' = s\<lparr>price_ladder_df := df', trades_row := trades_row s + 1\<rparr> \<and>
        (if 0 < quotes_row s
         then row_count (config s) \<le> length (price_ladder_df s) \<and>
              length df' = length (price_ladder_df s) \<and>
              (\<forall>i<length (price_ladder_df s).
                 if i < row_count (config s)
                 then trade_row (price_ladder s) (loc (trades_df s) (trades_row s)) i
                        (price_ladder_df s ! i) = Inr (df' ! i)
                 else df' ! i = price_ladder_df s ! i)
         else df' = price_ladder_df s)))"
proof (cases "0 < quotes_row s")
  case True
  then show ?thesis
    unfolding update_trade_def bind_Inr_iff
    by (simp add: trade_loop_iff iloc_def) blast
next
  case False
  then show ?thesis
    unfolding update_trade_def bind_Inr_iff
    by (auto simp: iloc_def)
qed

lemma cell_ok_simps [simp]: "cell_ok []" "cell_ok (str_int v)"
  by (simp_all add: cell_ok_def py_int_str_int)

lemma add_cell_ok: "cell_ok c \<Longrightarrow> \<exists>v'. add_cell v c = Inr v'"
  by (auto simp: add_cell_def cell_ok_def)

lemma trade_cells_total:
  "cell_ok (c0 r) \<Longrightarrow> cell_ok (c4 r) \<Longrightarrow> \<exists>r'. trade_cells t level r = Inr r'"
  using add_cell_ok [of "c0 r" "volume t"] add_cell_ok [of "c4 r" "volume t"]
  by (auto simp: trade_cells_def trade_match_def)

lemma trade_cells_frame:
  "trade_cells t level r = Inr r' \<Longrightarrow>
     c1 r' = c1 r \<and> c2 r' = c2 r \<and> c3 r' = c3 r
     \<and> (c0 r' = [] \<or> c4 r' = [] \<or> (c0 r' = c0 r \<and> c4 r' = c4 r))"
  by (auto simp: trade_cells_def trade_match_def split: if_splits sum.splits)

lemma trade_cells_ok:
  "trade_cells t level r = Inr r' \<Longrightarrow> cell_ok (c0 r) \<Longrightarrow> cell_ok (c4 r) \<Longrightarrow>
     cell_ok (c0 r') \<and> cell_ok (c4 r')"
  by (auto simp: trade_cells_def trade_match_def split: if_splits sum.splits)

section \<open>The loops row by row, and the invariant\<close>

lemma inv_init: "inv (init cfg qs ts)"
  by (simp add: inv_def init_def empty_row_def)

lemma reset_ladder_iff:
  "(reset_ladder s q = Inr s1) =
     (length (price_ladder_df s) = row_count (config s) \<and>
      s1 = s\<lparr>price_ladder := Some (new_ladder (config s) q),
             price_ladder_df :=
               map (\<lambda>i. (clear_0134 (price_ladder_df s ! i))
                           \<lparr>c2 := price_format (config s) (new_ladder (config s) q ! i)\<rparr>)
                 [0..<row_count (config s)]\<rparr>)"
proof -
  have "map (\<lambda>(r, l). r\<lparr>c2 := l\<rparr>) (zip (map clear_0134 df) (map f ladder))
        = map (\<lambda>i. (clear_0134 (df ! i))\<lparr>c2 := f (ladder ! i)\<rparr>) [0..<n]"
    if "length df = n" "length ladder = n" for df :: "df_row list" and f and ladder :: "rat list" and n
    using that by (auto simp: list_eq_iff_nth_eq)
  from this [of "price_ladder_df s" "row_count (config s)" "new_ladder (config s) q"]
  show ?thesis
    by (auto simp: reset_ladder_def Let_def length_new_ladder)
qed

lemma reset_frame:
  "(if b then reset_ladder s q else Inr s) = Inr s1 \<Longrightarrow>
     config s1 = config s \<and> quotes_row s1 = quotes_row s \<and> trades_row s1 = trades_row s
     \<and> quotes_df s1 = quotes_df s \<and> trades_df s1 = trades_df s"
  by (auto simp: reset_ladder_iff split: if_splits)

lemma update_quote_iff:
  "(update_quote s = Inr s') =
     (quotes_row s < length (quotes_df s) \<and>
      (\<exists>b. reset_needed s (quotes_df s ! quotes_row s) = Inr b \<and>
      (\<exists>s1. (if b then reset_ladder s (quotes_df s ! quotes_row s) else Inr s) = Inr s1 \<and>
      (\<exists>df. (row_count (config s1) \<le> length (price_ladder_df s1) \<and>
        length df = length (price_ladder_df s1) \<and>
        (\<forall>i<length (price_ladder_df s1).
           if i < row_count (config s1)
           then quote_row (price_ladder s1) (quotes_df s ! quotes_row s) i
                  (price_ladder_df s1 ! i) = Inr (df ! i)
           else df ! i = price_ladder_df s1 ! i)) \<and>
        s' = s1\<lparr>price_ladder_df := df, quotes_row := quotes_row s1 + 1\<rparr>))))"
  unfolding update_quote_def bind_Inr_iff quote_loop_iff loc_def
  by (cases "quotes_row s < length (quotes_df s)") auto

lemma reset_needed_False: "reset_needed s q = Inr False \<Longrightarrow> 0 < quotes_row s"
  by (auto simp: reset_needed_def split: if_splits)

lemma reset_needed_total:
  "inv s \<Longrightarrow> 0 < row_count (config s) \<Longrightarrow> \<exists>b. reset_needed s q = Inr b"
  by (auto simp: reset_needed_def inv_def ladder_at_def ladder_last_def)

lemma reset_total: "inv s \<Longrightarrow> \<exists>s1. (if b then reset_ladder s q else Inr s) = Inr s1"
  by (simp add: reset_ladder_iff inv_def)

lemma reset_anchored:
  assumes "inv s" "reset_needed s q = Inr b" "(if b then reset_ladder s q else Inr s) = Inr s1"
  shows "length (price_ladder_df s1) = row_count (config s1) \<and>
         (\<exists>l. price_ladder s1 = Some l \<and> length l = row_count (config s1)) \<and>
         (\<forall>r\<in>set (price_ladder_df s1). cell_ok (c0 r) \<and> cell_ok (c4 r)) \<and>
         quotes_row s1 \<le> length (quotes_df s1) \<and> trades_row s1 \<le> length (trades_df s1)"
proof (cases b)
  case True
  with assms show ?thesis
    by (auto simp: reset_ladder_iff inv_def length_new_ladder clear_0134_def)
next
  case False
  with assms reset_needed_False [of s q] show ?thesis
    by (auto simp: inv_def)
qed

lemma quote_row_Some:
  "i < length l \<Longrightarrow> quote_row (Some l) q i r = Inr (quote_cells q (l ! i) r)"
  by (simp add: quote_row_def ladder_at_def)

lemma quote_cells_frame [simp]:
  "c0 (quote_cells q level r) = c0 r" "c2 (quote_cells q level r) = c2 r"
  "c4 (quote_cells q level r) = c4 r"
  by (simp_all add: quote_cells_def)

lemma inv_update_quote:
  assumes "inv s" "update_quote s = Inr s'"
  shows "inv s'"
proof -
  from assms(2) obtain b s1 df where
    q: "quotes_row s < length (quotes_df s)" and
    b: "reset_needed s (quotes_df s ! quotes_row s) = Inr b" and
    s1: "(if b then reset_ladder s (quotes_df s ! quotes_row s) else Inr s) = Inr s1" and
    len: "length df = length (price_ladder_df s1)" and
    rows: "\<forall>i<length (price_ladder_df s1).
             if i < row_count (config s1)
             then quote_row (price_ladder s1) (quotes_df s ! quotes_row s) i
                    (price_ladder_df s1 ! i) = Inr (df ! i)
             else df ! i = price_ladder_df s1 ! i" and
    s': "s' = s1\<lparr>price_ladder_df := df, quotes_row := quotes_row s1 + 1\<rparr>"
    unfolding update_quote_iff by blast
  note a = reset_anchored [OF assms(1) b s1]
  note f = reset_frame [OF s1]
  from a obtain l where l: "price_ladder s1 = Some l" "length l = row_count (config s1)" by blast
  have "cell_ok (c0 (df ! i)) \<and> cell_ok (c4 (df ! i))" if "i < length df" for i
  proof -
    from that len a have i: "i < row_count (config s1)" "i < length (price_ladder_df s1)" by auto
    with rows [rule_format, of i] l
    have "df ! i = quote_cells (quotes_df s ! quotes_row s) (l ! i) (price_ladder_df s1 ! i)"
      by (simp add: quote_row_Some)
    moreover from a i have "cell_ok (c0 (price_ladder_df s1 ! i)) \<and> cell_ok (c4 (price_ladder_df s1 ! i))"
      by simp
    ultimately show ?thesis by simp
  qed
  then have "\<forall>r\<in>set df. cell_ok (c0 r) \<and> cell_ok (c4 r)"
    by (auto simp: in_set_conv_nth)
  with a f l q len show ?thesis
    by (simp add: inv_def s')
qed

lemma update_quote_total:
  assumes "inv s" "0 < row_count (config s)" "quotes_row s < length (quotes_df s)"
  shows "\<exists>s'. update_quote s = Inr s'"
proof -
  let ?q = "quotes_df s ! quotes_row s"
  from reset_needed_total [OF assms(1,2)] obtain b where b: "reset_needed s ?q = Inr b" by blast
  from reset_total [OF assms(1)] obtain s1 where
    s1: "(if b then reset_ladder s ?q else Inr s) = Inr s1" by blast
  note a = reset_anchored [OF assms(1) b s1]
  from a obtain l where l: "price_ladder s1 = Some l" "length l = row_count (config s1)" by blast
  let ?df = "map (\<lambda>i. quote_cells ?q (l ! i) (price_ladder_df s1 ! i)) [0..<row_count (config s1)]"
  have "row_count (config s1) \<le> length (price_ladder_df s1) \<and>
        length ?df = length (price_ladder_df s1) \<and>
        (\<forall>i<length (price_ladder_df s1).
           if i < row_count (config s1)
           then quote_row (price_ladder s1) ?q i (price_ladder_df s1 ! i) = Inr (?df ! i)
           else ?df ! i = price_ladder_df s1 ! i)"
    using a l by (simp add: quote_row_Some)
  with assms(3) b s1 show ?thesis
    unfolding update_quote_iff by blast
qed

lemma trade_row_Some:
  "i < length l \<Longrightarrow> trade_row (Some l) (Inr t) i r = trade_cells t (l ! i) r"
  by (simp add: trade_row_def ladder_at_def)

lemma inv_update_trade:
  assumes "inv s" "update_trade s = Inr s'"
  shows "inv s'"
proof -
  from assms(2) obtain df' where
    t: "trades_row s < length (trades_df s)" and
    s': "s' = s\<lparr>price_ladder_df := df', trades_row := trades_row s + 1\<rparr>" and
    rows: "if 0 < quotes_row s
           then row_count (config s) \<le> length (price_ladder_df s) \<and>
                length df' = length (price_ladder_df s) \<and>
                (\<forall>i<length (price_ladder_df s).
                   if i < row_count (config s)
                   then trade_row (price_ladder s) (loc (trades_df s) (trades_row s)) i
                          (price_ladder_df s ! i) = Inr (df' ! i)
                   else df' ! i = price_ladder_df s ! i)
           else df' = price_ladder_df s"
    unfolding update_trade_iff by blast
  have len: "length df' = length (price_ladder_df s)"
    using rows by (auto split: if_splits)
  have "cell_ok (c0 (df' ! i)) \<and> cell_ok (c4 (df' ! i))" if i: "i < length df'" for i
  proof (cases "0 < quotes_row s")
    case True
    with assms(1) obtain l where l: "price_ladder s = Some l" "length l = row_count (config s)"
      by (auto simp: inv_def)
    from i len assms(1) have i': "i < row_count (config s)" "i < length (price_ladder_df s)"
      by (auto simp: inv_def)
    from rows True have "\<forall>i<length (price_ladder_df s).
                   if i < row_count (config s)
                   then trade_row (price_ladder s) (loc (trades_df s) (trades_row s)) i
                          (price_ladder_df s ! i) = Inr (df' ! i)
                   else df' ! i = price_ladder_df s ! i"
      by simp
    from this [rule_format, of i] i' l t have
      "trade_cells (trades_df s ! trades_row s) (l ! i) (price_ladder_df s ! i) = Inr (df' ! i)"
      by (simp add: loc_def trade_row_Some)
    moreover from assms(1) i' have
      "cell_ok (c0 (price_ladder_df s ! i))" "cell_ok (c4 (price_ladder_df s ! i))"
      by (auto simp: inv_def)
    ultimately show ?thesis using trade_cells_ok by blast
  next
    case False
    with rows i assms(1) show ?thesis by (auto simp: inv_def)
  qed
  then have "\<forall>r\<in>set df'. cell_ok (c0 r) \<and> cell_ok (c4 r)"
    by (auto simp: in_set_conv_nth)
  with assms(1) t len show ?thesis
    by (simp add: inv_def s')
qed

lemma update_trade_total:
  assumes "inv s" "trades_row s < length (trades_df s)"
  shows "\<exists>s'. update_trade s = Inr s'"
proof (cases "0 < quotes_row s")
  case True
  with assms(1) obtain l where l: "price_ladder s = Some l" "length l = row_count (config s)"
    by (auto simp: inv_def)
  let ?t = "trades_df s ! trades_row s"
  have "\<exists>r'. trade_cells ?t (l ! i) (price_ladder_df s ! i) = Inr r'"
    if "i < length (price_ladder_df s)" for i
    using that assms(1) by (intro trade_cells_total) (auto simp: inv_def)
  then obtain f where f: "\<And>i. i < length (price_ladder_df s) \<Longrightarrow>
      trade_cells ?t (l ! i) (price_ladder_df s ! i) = Inr (f i)"
    by metis
  let ?df = "map f [0..<length (price_ladder_df s)]"
  have "row_count (config s) \<le> length (price_ladder_df s) \<and>
        length ?df = length (price_ladder_df s) \<and>
        (\<forall>i<length (price_ladder_df s).
           if i < row_count (config s)
           then trade_row (price_ladder s) (loc (trades_df s) (trades_row s)) i
                  (price_ladder_df s ! i) = Inr (?df ! i)
           else ?df ! i = price_ladder_df s ! i)"
    using assms l f by (simp add: inv_def loc_def trade_row_Some)
  then have "update_trade s = Inr (s\<lparr>price_ladder_df := ?df, trades_row := trades_row s + 1\<rparr>)"
    unfolding update_trade_iff using True assms(2)
    by (intro conjI exI [of _ ?df]; (simp only: if_True simp_thms)?; blast?)
  then show ?thesis by blast
next
  case False
  with assms(2) show ?thesis
    unfolding update_trade_iff by simp
qed

section \<open>The running example, step by step\<close>

lemmas ex_defs =
  ex_s0_def ex_s1_def ex_s2_def ex_s3_def ex_s4_def ex_state_def ex_cfg_def ex_quotes_def
  ex_trades_def init_def empty_row_def

lemma update_quote_eqI:
  assumes "map_sum id view (update_quote s) = Inr (view t)"
    and "config t = config s" and "quotes_df t = quotes_df s" and "trades_df t = trades_df s"
  shows "update_quote s = Inr t"
proof (cases "update_quote s")
  case (Inl e)
  with assms(1) show ?thesis by simp
next
  case (Inr s')
  then obtain b s1 df where
    s1: "(if b then reset_ladder s (quotes_df s ! quotes_row s) else Inr s) = Inr s1" and
    s': "s' = s1\<lparr>price_ladder_df := df, quotes_row := quotes_row s1 + 1\<rparr>"
    unfolding update_quote_iff by blast
  from reset_frame [OF s1] have
    "config s' = config s" "quotes_df s' = quotes_df s" "trades_df s' = trades_df s"
    by (simp_all add: s')
  with assms Inr have "s' = t"
    by (intro market_data.equality) (simp_all add: view_def)
  with Inr show ?thesis by simp
qed

lemma update_trade_eqI:
  assumes "map_sum id view (update_trade s) = Inr (view t)"
    and "config t = config s" and "quotes_df t = quotes_df s" and "trades_df t = trades_df s"
  shows "update_trade s = Inr t"
proof (cases "update_trade s")
  case (Inl e)
  with assms(1) show ?thesis by simp
next
  case (Inr s')
  then obtain df' where
    s': "s' = s\<lparr>price_ladder_df := df', trades_row := trades_row s + 1\<rparr>"
    unfolding update_trade_iff by blast
  with assms Inr have "s' = t"
    by (intro market_data.equality) (simp_all add: view_def)
  with Inr show ?thesis by simp
qed

lemma ex_quote1: "update_quote ex_s0 = Inr ex_s1"
proof (rule update_quote_eqI)
  show "map_sum id view (update_quote ex_s0) = Inr (view ex_s1)" by code_simp
qed (simp_all add: ex_defs)

lemma ex_trade1: "update_trade ex_s1 = Inr ex_s2"
proof (rule update_trade_eqI)
  show "map_sum id view (update_trade ex_s1) = Inr (view ex_s2)" by code_simp
qed (simp_all add: ex_defs)

lemma ex_quote2: "update_quote ex_s2 = Inr ex_s3"
proof (rule update_quote_eqI)
  show "map_sum id view (update_quote ex_s2) = Inr (view ex_s3)" by code_simp
qed (simp_all add: ex_defs)

lemma ex_trade2: "update_trade ex_s3 = Inr ex_s4"
proof (rule update_trade_eqI)
  show "map_sum id view (update_trade ex_s3) = Inr (view ex_s4)" by code_simp
qed (simp_all add: ex_defs)

lemma ex_step1: "get_next_price_ladder_df ex_s0 = Inr (Some (price_ladder_df ex_s1), ex_s1)"
  unfolding get_next_price_ladder_df_def ex_quote1
  by (simp add: ex_defs quotes_done_def trades_done_def)

lemma ex_step2: "get_next_price_ladder_df ex_s1 = Inr (Some (price_ladder_df ex_s2), ex_s2)"
  unfolding get_next_price_ladder_df_def ex_trade1
  by (simp add: ex_defs quotes_done_def trades_done_def)

lemma ex_step3: "get_next_price_ladder_df ex_s2 = Inr (Some (price_ladder_df ex_s3), ex_s3)"
  unfolding get_next_price_ladder_df_def ex_quote2
  by (simp add: ex_defs quotes_done_def trades_done_def)

lemma ex_step4: "get_next_price_ladder_df ex_s3 = Inr (Some (price_ladder_df ex_s4), ex_s4)"
  unfolding get_next_price_ladder_df_def ex_trade2
  by (simp add: ex_defs quotes_done_def trades_done_def)

lemma ex_reachable: "reachable ex_s0 ex_s1" "reachable ex_s0 ex_s2" "reachable ex_s0 ex_s3"
  "reachable ex_s0 ex_s4"
proof -
  show 1: "reachable ex_s0 ex_s1" using reachable_start ex_step1 by (rule reachable_next)
  show 2: "reachable ex_s0 ex_s2" using 1 ex_step2 by (rule reachable_next)
  show 3: "reachable ex_s0 ex_s3" using 2 ex_step3 by (rule reachable_next)
  show "reachable ex_s0 ex_s4" using 3 ex_step4 by (rule reachable_next)
qed

section \<open>Trades\<close>

text \<open>
  Claim C9. A trade applied while the quotes cursor is still 0 leaves the ladder, the frame
  and everything else as they are; the only change is the trades cursor, advanced by one.
\<close>

theorem trade_before_first_quote:
  assumes "quotes_row s = 0" and "trades_row s < length (trades_df s)"
  shows "update_trade s = Inr (s\<lparr>trades_row := trades_row s + 1\<rparr>)"
  using assms by (simp add: update_trade_def iloc_def)

theorem trade_before_first_quote_witness:
  "quotes_row ex_s0 = 0 \<and> trades_row ex_s0 < length (trades_df ex_s0) \<and>
   update_trade ex_s0 = Inr (ex_s0\<lparr>trades_row := 1\<rparr>)"
proof -
  have h: "quotes_row ex_s0 = 0" "trades_row ex_s0 < length (trades_df ex_s0)"
    by (simp_all add: ex_defs)
  from trade_before_first_quote [OF h] h show ?thesis
    by (simp add: ex_defs)
qed

text \<open>
  Claim C10. A trade that is applied changes neither the levels nor columns 1, 2 and 3 of
  any row, nor the configuration, the streams or the quotes cursor: only columns 0 and 4
  may change, and the trades cursor advances by one.
\<close>

theorem update_trade_frame:
  assumes "update_trade s = Inr s'"
  shows "price_ladder s' = price_ladder s \<and> config s' = config s \<and>
         quotes_row s' = quotes_row s \<and> quotes_df s' = quotes_df s \<and>
         trades_df s' = trades_df s \<and> trades_row s' = trades_row s + 1 \<and>
         length (price_ladder_df s') = length (price_ladder_df s) \<and>
         (\<forall>i<length (price_ladder_df s).
            c1 (price_ladder_df s' ! i) = c1 (price_ladder_df s ! i) \<and>
            c2 (price_ladder_df s' ! i) = c2 (price_ladder_df s ! i) \<and>
            c3 (price_ladder_df s' ! i) = c3 (price_ladder_df s ! i))"
proof -
  from assms obtain df' where
    s': "s' = s\<lparr>price_ladder_df := df', trades_row := trades_row s + 1\<rparr>" and
    rows: "if 0 < quotes_row s
           then row_count (config s) \<le> length (price_ladder_df s) \<and>
                length df' = length (price_ladder_df s) \<and>
                (\<forall>i<length (price_ladder_df s).
                   if i < row_count (config s)
                   then trade_row (price_ladder s) (loc (trades_df s) (trades_row s)) i
                          (price_ladder_df s ! i) = Inr (df' ! i)
                   else df' ! i = price_ladder_df s ! i)
           else df' = price_ladder_df s"
    unfolding update_trade_iff by blast
  have "c1 (df' ! i) = c1 (price_ladder_df s ! i) \<and> c2 (df' ! i) = c2 (price_ladder_df s ! i) \<and>
        c3 (df' ! i) = c3 (price_ladder_df s ! i)"
    if i: "i < length (price_ladder_df s)" for i
  proof (cases "0 < quotes_row s \<and> i < row_count (config s)")
    case True
    with rows i have
      "trade_row (price_ladder s) (loc (trades_df s) (trades_row s)) i (price_ladder_df s ! i)
         = Inr (df' ! i)"
      by simp
    then obtain t level where "trade_cells t level (price_ladder_df s ! i) = Inr (df' ! i)"
      by (auto simp: trade_row_def split: sum.splits)
    then show ?thesis using trade_cells_frame by blast
  next
    case False
    with rows i show ?thesis by (auto split: if_splits)
  qed
  moreover have "length df' = length (price_ladder_df s)"
    using rows by (auto split: if_splits)
  ultimately show ?thesis by (simp add: s')
qed

theorem update_trade_frame_witness:
  "update_trade ex_s1 = Inr ex_s2 \<and>
   price_ladder ex_s2 = price_ladder ex_s1 \<and> config ex_s2 = config ex_s1 \<and>
   quotes_row ex_s2 = quotes_row ex_s1 \<and> quotes_df ex_s2 = quotes_df ex_s1 \<and>
   trades_df ex_s2 = trades_df ex_s1 \<and> trades_row ex_s2 = trades_row ex_s1 + 1 \<and>
   map c1 (price_ladder_df ex_s2) = map c1 (price_ladder_df ex_s1) \<and>
   map c2 (price_ladder_df ex_s2) = map c2 (price_ladder_df ex_s1) \<and>
   map c3 (price_ladder_df ex_s2) = map c3 (price_ladder_df ex_s1) \<and>
   c0 (price_ladder_df ex_s2 ! 2) = ''3'' \<and> c0 (price_ladder_df ex_s1 ! 2) = []"
  using update_trade_frame [OF ex_trade1] ex_trade1
  by (simp add: ex_defs)

text \<open>
  Claim C4, as amended. At a row whose level is close to the trade price while both its
  bid-size cell (column 1) and its ask-size cell (column 3) are empty, the trade changes
  nothing: columns 0 and 4 keep what they held. (The claim says they are cleared.)
\<close>

theorem trade_at_unquoted_level_keeps_row:
  assumes "update_trade s = Inr s'" and "0 < quotes_row s" and "i < row_count (config s)"
    and "ladder_at (price_ladder s) i = Inr level"
    and "isclose level (price (trades_df s ! trades_row s))"
    and "c1 (price_ladder_df s ! i) = []" and "c3 (price_ladder_df s ! i) = []"
  shows "price_ladder_df s' ! i = price_ladder_df s ! i"
proof -
  from assms(1,2) obtain df' where
    t: "trades_row s < length (trades_df s)" and
    s': "s' = s\<lparr>price_ladder_df := df', trades_row := trades_row s + 1\<rparr>" and
    len: "row_count (config s) \<le> length (price_ladder_df s)" and
    rows: "\<forall>i<length (price_ladder_df s).
             if i < row_count (config s)
             then trade_row (price_ladder s) (loc (trades_df s) (trades_row s)) i
                    (price_ladder_df s ! i) = Inr (df' ! i)
             else df' ! i = price_ladder_df s ! i"
    unfolding update_trade_iff by auto
  from rows [rule_format, of i] len assms(3) have
    "trade_row (price_ladder s) (loc (trades_df s) (trades_row s)) i (price_ladder_df s ! i)
       = Inr (df' ! i)"
    by simp
  with t assms(4-7) have "df' ! i = price_ladder_df s ! i"
    by (simp add: trade_row_def loc_def trade_cells_def trade_match_def)
  then show ?thesis by (simp add: s')
qed

theorem trade_at_unquoted_level_keeps_row_witness:
  "update_trade ex_s3 = Inr ex_s4 \<and> 0 < quotes_row ex_s3 \<and> 2 < row_count (config ex_s3) \<and>
   ladder_at (price_ladder ex_s3) 2 = Inr 100 \<and>
   isclose 100 (price (trades_df ex_s3 ! trades_row ex_s3)) \<and>
   c1 (price_ladder_df ex_s3 ! 2) = [] \<and> c3 (price_ladder_df ex_s3 ! 2) = [] \<and>
   price_ladder_df ex_s4 ! 2 = price_ladder_df ex_s3 ! 2"
proof -
  have h: "0 < quotes_row ex_s3" "2 < row_count (config ex_s3)"
    "ladder_at (price_ladder ex_s3) 2 = Inr 100"
    "isclose 100 (price (trades_df ex_s3 ! trades_row ex_s3))"
    "c1 (price_ladder_df ex_s3 ! 2) = []" "c3 (price_ladder_df ex_s3 ! 2) = []"
    by (simp_all add: ex_defs ladder_at_def isclose_def)
  from trade_at_unquoted_level_keeps_row [OF ex_trade2 h] ex_trade2 h show ?thesis
    by simp
qed

text \<open>
  The claim as stated fails in a state the engine reaches: after the quote at time 1, the
  trade at time 2 and the quote at time 3, the row of level 100 holds the volume 3 in
  column 0 and no size; the trade at time 4 at price 100 leaves the 3 there.
\<close>

theorem trade_at_unquoted_level_counterexample:
  "reachable ex_s0 ex_s3 \<and> update_trade ex_s3 = Inr ex_s4 \<and>
   ladder_at (price_ladder ex_s3) 2 = Inr 100 \<and>
   isclose 100 (price (trades_df ex_s3 ! trades_row ex_s3)) \<and>
   c1 (price_ladder_df ex_s3 ! 2) = [] \<and> c3 (price_ladder_df ex_s3 ! 2) = [] \<and>
   c0 (price_ladder_df ex_s4 ! 2) = ''3''"
  using ex_reachable(3) ex_trade2
  by (simp add: ex_defs ladder_at_def isclose_def)

section \<open>Steps and reachable states\<close>

lemma quotes_done_iff: "quotes_done s = (length (quotes_df s) \<le> quotes_row s)"
  by (auto simp: quotes_done_def)

lemma trades_done_iff: "trades_done s = (length (trades_df s) \<le> trades_row s)"
  by (auto simp: trades_done_def)

lemma get_next_None_iff:
  "(get_next_price_ladder_df s = Inr (None, s')) = (quotes_done s \<and> trades_done s \<and> s' = s)"
  by (auto simp: get_next_price_ladder_df_def split: sum.splits)

lemma get_next_Some:
  assumes "get_next_price_ladder_df s = Inr (Some df, s')"
  shows "df = price_ladder_df s' \<and>
         (\<not> quotes_done s \<and>
            (trades_done s \<or> quote_time_value (quotes_df s ! quotes_row s)
                               < trade_time_value (trades_df s ! trades_row s)) \<and>
            update_quote s = Inr s'
          \<or>
          \<not> trades_done s \<and>
            (quotes_done s \<or> \<not> quote_time_value (quotes_df s ! quotes_row s)
                                 < trade_time_value (trades_df s ! trades_row s)) \<and>
            update_trade s = Inr s')"
  using assms by (auto simp: get_next_price_ladder_df_def split: sum.splits if_splits)

lemma get_next_cases:
  assumes "get_next_price_ladder_df s = Inr (r, s')"
  shows "s' = s \<or> update_quote s = Inr s' \<or> update_trade s = Inr s'"
  using assms get_next_None_iff [of s s'] get_next_Some [of s _ s'] by (cases r) auto

lemma update_quote_frame:
  assumes "update_quote s = Inr s'"
  shows "config s' = config s \<and> quotes_df s' = quotes_df s \<and> trades_df s' = trades_df s \<and>
         quotes_row s' = quotes_row s + 1 \<and> trades_row s' = trades_row s"
proof -
  from assms obtain b s1 df where
    s1: "(if b then reset_ladder s (quotes_df s ! quotes_row s) else Inr s) = Inr s1" and
    s': "s' = s1\<lparr>price_ladder_df := df, quotes_row := quotes_row s1 + 1\<rparr>"
    unfolding update_quote_iff by blast
  from reset_frame [OF s1] show ?thesis by (simp add: s')
qed

lemma update_trade_frame0:
  assumes "update_trade s = Inr s'"
  shows "config s' = config s \<and> quotes_df s' = quotes_df s \<and> trades_df s' = trades_df s \<and>
         quotes_row s' = quotes_row s \<and> trades_row s' = trades_row s + 1"
  using assms unfolding update_trade_iff by auto

lemma get_next_frame:
  assumes "get_next_price_ladder_df s = Inr (r, s')"
  shows "config s' = config s \<and> quotes_df s' = quotes_df s \<and> trades_df s' = trades_df s"
  using get_next_cases [OF assms] update_quote_frame [of s s'] update_trade_frame0 [of s s']
  by auto

lemma inv_get_next:
  assumes "inv s" "get_next_price_ladder_df s = Inr (r, s')"
  shows "inv s'"
  using get_next_cases [OF assms(2)] assms(1) inv_update_quote inv_update_trade by blast

lemma reachable_inv: "reachable s0 s \<Longrightarrow> inv s0 \<Longrightarrow> inv s"
  by (induction rule: reachable.induct) (auto intro: inv_get_next)

lemma reachable_frame:
  "reachable s0 s \<Longrightarrow>
     config s = config s0 \<and> quotes_df s = quotes_df s0 \<and> trades_df s = trades_df s0"
  by (induction rule: reachable.induct) (auto dest: get_next_frame)

lemma reachable_terminal:
  "reachable s s'' \<Longrightarrow> quotes_done s \<Longrightarrow> trades_done s \<Longrightarrow> s'' = s"
  by (induction rule: reachable.induct)
     (auto simp: get_next_price_ladder_df_def split: if_splits)

lemma one_sided_nth: "one_sided df = (\<forall>i<length df. c0 (df ! i) = [] \<or> c4 (df ! i) = [])"
  by (simp add: one_sided_def all_set_conv_all_nth)

lemma one_sided_reset:
  assumes "(if b then reset_ladder s q else Inr s) = Inr s1" "one_sided (price_ladder_df s)"
  shows "one_sided (price_ladder_df s1)"
  using assms by (cases b) (auto simp: reset_ladder_iff one_sided_def clear_0134_def)

lemma one_sided_update_quote:
  assumes "update_quote s = Inr s'" "one_sided (price_ladder_df s)"
  shows "one_sided (price_ladder_df s')"
proof -
  from assms(1) obtain b s1 df where
    s1: "(if b then reset_ladder s (quotes_df s ! quotes_row s) else Inr s) = Inr s1" and
    len: "length df = length (price_ladder_df s1)" and
    rows: "\<forall>i<length (price_ladder_df s1).
             if i < row_count (config s1)
             then quote_row (price_ladder s1) (quotes_df s ! quotes_row s) i
                    (price_ladder_df s1 ! i) = Inr (df ! i)
             else df ! i = price_ladder_df s1 ! i" and
    s': "s' = s1\<lparr>price_ladder_df := df, quotes_row := quotes_row s1 + 1\<rparr>"
    unfolding update_quote_iff by blast
  from one_sided_reset [OF s1 assms(2)] have o: "one_sided (price_ladder_df s1)" .
  have "c0 (df ! i) = [] \<or> c4 (df ! i) = []" if i: "i < length df" for i
  proof -
    from rows [rule_format, of i] i len
    have "(\<exists>level. quote_cells (quotes_df s ! quotes_row s) level (price_ladder_df s1 ! i) = df ! i)
          \<or> df ! i = price_ladder_df s1 ! i"
      by (cases "i < row_count (config s1)"; cases "ladder_at (price_ladder s1) i")
         (simp_all add: quote_row_def, blast)
    then have "c0 (df ! i) = c0 (price_ladder_df s1 ! i) \<and> c4 (df ! i) = c4 (price_ladder_df s1 ! i)"
      by (metis quote_cells_frame(1,3))
    with o i len show ?thesis by (simp add: one_sided_nth)
  qed
  then show ?thesis by (simp add: s' one_sided_nth)
qed

lemma one_sided_update_trade:
  assumes "update_trade s = Inr s'" "one_sided (price_ladder_df s)"
  shows "one_sided (price_ladder_df s')"
proof -
  from assms(1) obtain df' where
    s': "s' = s\<lparr>price_ladder_df := df', trades_row := trades_row s + 1\<rparr>" and
    rows: "if 0 < quotes_row s
           then row_count (config s) \<le> length (price_ladder_df s) \<and>
                length df' = length (price_ladder_df s) \<and>
                (\<forall>i<length (price_ladder_df s).
                   if i < row_count (config s)
                   then trade_row (price_ladder s) (loc (trades_df s) (trades_row s)) i
                          (price_ladder_df s ! i) = Inr (df' ! i)
                   else df' ! i = price_ladder_df s ! i)
           else df' = price_ladder_df s"
    unfolding update_trade_iff by blast
  have len: "length df' = length (price_ladder_df s)"
    using rows by (auto split: if_splits)
  have "c0 (df' ! i) = [] \<or> c4 (df' ! i) = []" if i: "i < length df'" for i
  proof (cases "0 < quotes_row s \<and> i < row_count (config s)")
    case True
    with rows i len have
      "trade_row (price_ladder s) (loc (trades_df s) (trades_row s)) i (price_ladder_df s ! i)
         = Inr (df' ! i)"
      by simp
    then obtain t level where "trade_cells t level (price_ladder_df s ! i) = Inr (df' ! i)"
      by (auto simp: trade_row_def split: sum.splits)
    from trade_cells_frame [OF this] assms(2) i len show ?thesis
      by (auto simp: one_sided_nth)
  next
    case False
    with rows i len assms(2) show ?thesis
      by (auto simp: one_sided_nth split: if_splits)
  qed
  then show ?thesis by (simp add: s' one_sided_nth)
qed

lemma one_sided_get_next:
  assumes "get_next_price_ladder_df s = Inr (r, s')" "one_sided (price_ladder_df s)"
  shows "one_sided (price_ladder_df s')"
  using get_next_cases [OF assms(1)] assms(2) one_sided_update_quote one_sided_update_trade
  by blast

lemma reachable_one_sided:
  "reachable s0 s \<Longrightarrow> one_sided (price_ladder_df s0) \<Longrightarrow> one_sided (price_ladder_df s)"
  by (induction rule: reachable.induct) (auto intro: one_sided_get_next)

section \<open>Termination of the replay and the volume columns\<close>

text \<open>
  Claim C7. In every state reached from the constructor's state, the step returns none
  exactly when both cursors equal the lengths of their streams; it then leaves the state
  as it is, so every later call is made in the same state and returns none again.
\<close>

theorem step_none_iff_exhausted:
  assumes "reachable (init cfg qs ts) s"
  shows "((\<exists>s'. get_next_price_ladder_df s = Inr (None, s')) \<longleftrightarrow>
            quotes_row s = length qs \<and> trades_row s = length ts) \<and>
         (\<forall>s'. get_next_price_ladder_df s = Inr (None, s') \<longrightarrow>
            s' = s \<and> (\<forall>s''. reachable s' s'' \<longrightarrow>
                        s'' = s \<and> get_next_price_ladder_df s'' = Inr (None, s)))"
proof -
  from reachable_inv [OF assms inv_init] have i: "inv s" .
  from reachable_frame [OF assms] have f: "quotes_df s = qs" "trades_df s = ts"
    by (simp_all add: init_def)
  from i f have le: "quotes_row s \<le> length qs" "trades_row s \<le> length ts"
    by (simp_all add: inv_def)
  have "(\<exists>s'. get_next_price_ladder_df s = Inr (None, s')) \<longleftrightarrow>
          quotes_row s = length qs \<and> trades_row s = length ts"
    using le f by (auto simp: get_next_None_iff quotes_done_iff trades_done_iff)
  moreover have "s' = s \<and> (\<forall>s''. reachable s' s'' \<longrightarrow>
                        s'' = s \<and> get_next_price_ladder_df s'' = Inr (None, s))"
    if "get_next_price_ladder_df s = Inr (None, s')" for s'
    using that reachable_terminal [of s] by (auto simp: get_next_None_iff)
  ultimately show ?thesis by blast
qed

theorem step_none_iff_exhausted_witness:
  "reachable (init ex_cfg ex_quotes ex_trades) ex_s4 \<and>
   quotes_row ex_s4 = length ex_quotes \<and> trades_row ex_s4 = length ex_trades \<and>
   get_next_price_ladder_df ex_s4 = Inr (None, ex_s4) \<and>
   reachable (init ex_cfg ex_quotes ex_trades) ex_s1 \<and>
   quotes_row ex_s1 \<noteq> length ex_quotes \<and>
   get_next_price_ladder_df ex_s1 \<noteq> Inr (None, ex_s1)"
proof -
  have r: "reachable (init ex_cfg ex_quotes ex_trades) ex_s4"
    "reachable (init ex_cfg ex_quotes ex_trades) ex_s1"
    using ex_reachable by (simp_all add: ex_s0_def)
  have c: "quotes_row ex_s4 = length ex_quotes" "trades_row ex_s4 = length ex_trades"
    "quotes_row ex_s1 \<noteq> length ex_quotes"
    by (simp_all add: ex_defs)
  from step_none_iff_exhausted [OF r(1)] c have "get_next_price_ladder_df ex_s4 = Inr (None, ex_s4)"
    by blast
  moreover from step_none_iff_exhausted [OF r(2)] c
  have "get_next_price_ladder_df ex_s1 \<noteq> Inr (None, ex_s1)"
    by blast
  ultimately show ?thesis using r c by simp
qed

text \<open>
  Claim C8. In every state reached from the constructor's state, no row holds a volume in
  column 0 and in column 4 at once.
\<close>

theorem one_volume_side_per_row:
  assumes "reachable (init cfg qs ts) s"
  shows "\<forall>r\<in>set (price_ladder_df s). c0 r = [] \<or> c4 r = []"
proof -
  have "one_sided (price_ladder_df (init cfg qs ts))"
    by (simp add: one_sided_def init_def empty_row_def)
  from reachable_one_sided [OF assms this] show ?thesis
    by (simp add: one_sided_def)
qed

theorem one_volume_side_per_row_witness:
  "reachable (init ex_cfg ex_quotes ex_trades) ex_s2 \<and>
   map c0 (price_ladder_df ex_s2) = [[], [], ''3''] \<and>
   map c4 (price_ladder_df ex_s2) = [[], [], []]"
proof -
  have r: "reachable (init ex_cfg ex_quotes ex_trades) ex_s2"
    using ex_reachable by (simp add: ex_s0_def)
  from one_volume_side_per_row [OF r] r show ?thesis
    by (simp add: ex_defs)
qed

section \<open>The pacing signal\<close>

lemma time_elapsed_exhausted:
  "quotes_done s \<Longrightarrow> trades_done s \<Longrightarrow> get_price_ladder_time_elapsed s = Inr 0"
  by (simp add: get_price_ladder_time_elapsed_def)

lemma time_elapsed_both_present:
  assumes "quotes_row s < length (quotes_df s)" and "trades_row s < length (trades_df s)"
  shows "get_price_ladder_time_elapsed s =
           Inr (min (quote_time_value (quotes_df s ! quotes_row s))
                    (trade_time_value (trades_df s ! trades_row s))
                - min (quote_time_value (quotes_df s ! 0)) (trade_time_value (trades_df s ! 0)))"
proof -
  from assms have "0 < length (quotes_df s)" "0 < length (trades_df s)" by auto
  with assms show ?thesis
    by (simp add: get_price_ladder_time_elapsed_def loc_def quotes_done_iff trades_done_iff
             del: length_greater_0_conv)
qed

lemma time_elapsed_one_exhausted:
  assumes "quotes_done s \<noteq> trades_done s"
  shows "get_price_ladder_time_elapsed s = Inl KeyError"
  using assms
  by (auto simp: get_price_ladder_time_elapsed_def loc_def quotes_done_iff trades_done_iff
           split: sum.splits)

text \<open>
  Claim C6. The claim holds where both streams still have a record and where both are
  exhausted (the two lemmas above). Where exactly one stream is exhausted the function
  raises \<open>KeyError\<close>: it reads the record at the cursor of both streams. The state below
  is reached in the running example after the two quotes and the first trade.
\<close>

theorem time_elapsed_raises_when_one_stream_exhausted:
  "reachable ex_s0 ex_s3 \<and> quotes_row ex_s3 = length (quotes_df ex_s3) \<and>
   trades_row ex_s3 < length (trades_df ex_s3) \<and>
   get_price_ladder_time_elapsed ex_s3 = Inl KeyError"
proof -
  have "quotes_done ex_s3 \<noteq> trades_done ex_s3"
    by (simp add: quotes_done_iff trades_done_iff ex_defs)
  from time_elapsed_one_exhausted [OF this] ex_reachable(3) show ?thesis
    by (simp add: ex_defs)
qed

section \<open>Matching a price to a row\<close>








section \<open>Quotes and the reset of the grid\<close>









section \<open>The replay as a whole\<close>

lemma step_progress:
  assumes "inv s" "0 < row_count (config s)" "\<not> (quotes_done s \<and> trades_done s)"
  shows "\<exists>s'. get_next_price_ladder_df s = Inr (Some (price_ladder_df s'), s')"
proof -
  let ?quote = "\<not> quotes_done s \<and>
     (trades_done s \<or> quote_time_value (quotes_df s ! quotes_row s)
                        < trade_time_value (trades_df s ! trades_row s))"
  show ?thesis
  proof (cases ?quote)
    case True
    then have "quotes_row s < length (quotes_df s)" by (simp add: quotes_done_iff)
    from update_quote_total [OF assms(1,2) this] obtain s' where "update_quote s = Inr s'" ..
    with True assms(3) show ?thesis
      by (auto simp: get_next_price_ladder_df_def)
  next
    case False
    with assms(3) have "trades_row s < length (trades_df s)"
      by (auto simp: trades_done_iff quotes_done_iff)
    from update_trade_total [OF assms(1) this] obtain s' where "update_trade s = Inr s'" ..
    with False assms(3) show ?thesis
      by (auto simp: get_next_price_ladder_df_def)
  qed
qed

lemma step_remaining:
  assumes "get_next_price_ladder_df s = Inr (Some df, s')"
  shows "Suc (remaining s') = remaining s"
proof -
  from get_next_Some [OF assms] consider
    (quote) "\<not> quotes_done s" "update_quote s = Inr s'" |
    (trade) "\<not> trades_done s" "update_trade s = Inr s'"
    by blast
  then show ?thesis
  proof cases
    case quote
    with update_quote_frame [of s s'] show ?thesis
      by (simp add: remaining_def quotes_done_iff)
  next
    case trade
    with update_trade_frame0 [of s s'] show ?thesis
      by (simp add: remaining_def trades_done_iff)
  qed
qed

lemma run_complete:
  assumes "inv s" "0 < row_count (config s)" "remaining s \<le> n"
  shows "\<exists>evs s'. run n s = Inr (evs, s') \<and> length evs = remaining s \<and>
           quotes_row s' = length (quotes_df s) \<and> trades_row s' = length (trades_df s)"
  using assms
proof (induction n arbitrary: s)
  case 0
  then show ?case by (simp add: remaining_def inv_def)
next
  case (Suc n)
  show ?case
  proof (cases "quotes_done s \<and> trades_done s")
    case True
    then have "get_next_price_ladder_df s = Inr (None, s)"
      by (simp add: get_next_None_iff)
    with True Suc.prems(1) show ?thesis
      by (simp add: remaining_def quotes_done_iff trades_done_iff inv_def)
  next
    case False
    from step_progress [OF Suc.prems(1,2) False] obtain s1 where
      s1: "get_next_price_ladder_df s = Inr (Some (price_ladder_df s1), s1)" ..
    note f = get_next_frame [OF s1] and r = step_remaining [OF s1]
    from inv_get_next [OF Suc.prems(1) s1] have "inv s1" .
    moreover from f Suc.prems(2) have "0 < row_count (config s1)" by simp
    moreover from r Suc.prems(3) have "remaining s1 \<le> n" by simp
    ultimately obtain evs s' where
      "run n s1 = Inr (evs, s')" "length evs = remaining s1"
      "quotes_row s' = length (quotes_df s1)" "trades_row s' = length (trades_df s1)"
      using Suc.IH by blast
    with s1 f r show ?thesis by simp
  qed
qed

lemma sorted_map_nth:
  "sorted (map f xs) \<Longrightarrow> i \<le> j \<Longrightarrow> j < length xs \<Longrightarrow> f (xs ! i) \<le> f (xs ! j)"
  using sorted_nth_mono [of "map f xs" i j] by simp

lemma step_chronological:
  assumes step: "get_next_price_ladder_df s = Inr (Some df, s')"
    and qs: "sorted (map quote_time_value (quotes_df s))"
    and ts: "sorted (map trade_time_value (trades_df s))"
    and e: "e \<in> pending s'"
  shows "chronological (applied s s') e \<and> e \<in> pending s \<and> applied s s' \<in> pending s"
proof -
  from get_next_Some [OF step] consider
    (quote) "\<not> quotes_done s"
      "trades_done s \<or> quote_time_value (quotes_df s ! quotes_row s)
                         < trade_time_value (trades_df s ! trades_row s)"
      "update_quote s = Inr s'" |
    (trade) "\<not> trades_done s"
      "quotes_done s \<or> \<not> quote_time_value (quotes_df s ! quotes_row s)
                          < trade_time_value (trades_df s ! trades_row s)"
      "update_trade s = Inr s'"
    by blast
  then show ?thesis
  proof cases
    case quote
    note f = update_quote_frame [OF quote(3)]
    from f have a: "applied s s' = QuoteEvent (quotes_df s ! quotes_row s)"
      by (simp add: applied_def)
    from e f consider
      (q) i where "Suc (quotes_row s) \<le> i" "i < length (quotes_df s)"
        "e = QuoteEvent (quotes_df s ! i)" |
      (t) j where "trades_row s \<le> j" "j < length (trades_df s)"
        "e = TradeEvent (trades_df s ! j)"
      by (auto simp: pending_def)
    then show ?thesis
    proof cases
      case q
      with sorted_map_nth [OF qs, of "quotes_row s" i] quote(1) show ?thesis
        by (auto simp: a chronological_def pending_def quotes_done_iff)
    next
      case t
      with quote(2) have "quote_time_value (quotes_df s ! quotes_row s)
                            < trade_time_value (trades_df s ! trades_row s)"
        by (auto simp: trades_done_iff)
      with t sorted_map_nth [OF ts, of "trades_row s" j] quote(1) show ?thesis
        by (auto simp: a chronological_def pending_def quotes_done_iff)
    qed
  next
    case trade
    note f = update_trade_frame0 [OF trade(3)]
    from f have a: "applied s s' = TradeEvent (trades_df s ! trades_row s)"
      by (simp add: applied_def)
    from e f consider
      (q) i where "quotes_row s \<le> i" "i < length (quotes_df s)"
        "e = QuoteEvent (quotes_df s ! i)" |
      (t) j where "Suc (trades_row s) \<le> j" "j < length (trades_df s)"
        "e = TradeEvent (trades_df s ! j)"
      by (auto simp: pending_def)
    then show ?thesis
    proof cases
      case q
      with trade(2) have "trade_time_value (trades_df s ! trades_row s)
                            \<le> quote_time_value (quotes_df s ! quotes_row s)"
        by (auto simp: quotes_done_iff)
      with q sorted_map_nth [OF qs, of "quotes_row s" i] trade(1) show ?thesis
        by (auto simp: a chronological_def pending_def trades_done_iff)
    next
      case t
      with sorted_map_nth [OF ts, of "trades_row s" j] trade(1) show ?thesis
        by (auto simp: a chronological_def pending_def trades_done_iff)
    qed
  qed
qed

lemma run_Suc_Inr:
  assumes "run (Suc n) s = Inr (evs, s')"
  shows "evs = [] \<and> s' = s \<and> quotes_done s \<and> trades_done s \<or>
         (\<exists>df s1 evs1. get_next_price_ladder_df s = Inr (Some df, s1) \<and>
            run n s1 = Inr (evs1, s') \<and> evs = applied s s1 # evs1)"
proof (cases "get_next_price_ladder_df s")
  case (Inl e)
  with assms show ?thesis by simp
next
  case (Inr p)
  obtain r s1 where p: "p = (r, s1)" by (cases p)
  show ?thesis
  proof (cases r)
    case None
    with Inr p assms get_next_None_iff [of s s1] show ?thesis by simp
  next
    case (Some df)
    with Inr p assms show ?thesis by (auto split: sum.splits)
  qed
qed

lemma applied_pending:
  assumes "get_next_price_ladder_df s = Inr (Some df, s')"
  shows "applied s s' \<in> pending s"
proof -
  from get_next_Some [OF assms] consider
    (quote) "\<not> quotes_done s" "update_quote s = Inr s'" |
    (trade) "\<not> trades_done s" "update_trade s = Inr s'"
    by blast
  then show ?thesis
  proof cases
    case quote
    with update_quote_frame [of s s'] show ?thesis
      by (auto simp: applied_def pending_def quotes_done_iff)
  next
    case trade
    with update_trade_frame0 [of s s'] show ?thesis
      by (auto simp: applied_def pending_def trades_done_iff)
  qed
qed

lemma run_chronological:
  assumes "sorted (map quote_time_value (quotes_df s))"
    and "sorted (map trade_time_value (trades_df s))"
    and "run n s = Inr (evs, s')"
  shows "sorted_wrt chronological evs \<and> set evs \<subseteq> pending s"
  using assms
proof (induction n arbitrary: s evs)
  case 0
  then show ?case by simp
next
  case (Suc n)
  from run_Suc_Inr [OF Suc.prems(3)] show ?case
  proof
    assume "evs = [] \<and> s' = s \<and> quotes_done s \<and> trades_done s"
    then show ?thesis by simp
  next
    assume "\<exists>df s1 evs1. get_next_price_ladder_df s = Inr (Some df, s1) \<and>
              run n s1 = Inr (evs1, s') \<and> evs = applied s s1 # evs1"
    then obtain df s1 evs1 where
      step: "get_next_price_ladder_df s = Inr (Some df, s1)" and
      rest: "run n s1 = Inr (evs1, s')" and
      evs: "evs = applied s s1 # evs1"
      by blast
    from get_next_frame [OF step] Suc.prems(1,2) have
      "sorted (map quote_time_value (quotes_df s1))" "sorted (map trade_time_value (trades_df s1))"
      by simp_all
    from Suc.IH [OF this rest] have
      ih: "sorted_wrt chronological evs1" "set evs1 \<subseteq> pending s1"
      by simp_all
    have "chronological (applied s s1) e \<and> e \<in> pending s" if "e \<in> set evs1" for e
      using step_chronological [OF step Suc.prems(1,2), of e] that ih(2) by blast
    with ih(1) applied_pending [OF step] show ?thesis
      by (auto simp: evs)
  qed
qed

lemma run_streams:
  assumes "run n s = Inr (evs, s')"
    and "quotes_row s \<le> length (quotes_df s)" and "trades_row s \<le> length (trades_df s)"
  shows "drop (quotes_row s) (quotes_df s) = quotes_of evs @ drop (quotes_row s') (quotes_df s) \<and>
         drop (trades_row s) (trades_df s) = trades_of evs @ drop (trades_row s') (trades_df s)"
  using assms
proof (induction n arbitrary: s evs)
  case 0
  then show ?case by simp
next
  case (Suc n)
  from run_Suc_Inr [OF Suc.prems(1)] show ?case
  proof
    assume "evs = [] \<and> s' = s \<and> quotes_done s \<and> trades_done s"
    then show ?thesis by simp
  next
    assume "\<exists>df s1 evs1. get_next_price_ladder_df s = Inr (Some df, s1) \<and>
              run n s1 = Inr (evs1, s') \<and> evs = applied s s1 # evs1"
    then obtain df s1 evs1 where
      step: "get_next_price_ladder_df s = Inr (Some df, s1)" and
      rest: "run n s1 = Inr (evs1, s')" and
      evs: "evs = applied s s1 # evs1"
      by blast
    from get_next_Some [OF step] consider
      (quote) "\<not> quotes_done s" "update_quote s = Inr s1" |
      (trade) "\<not> trades_done s" "update_trade s = Inr s1"
      by blast
    then show ?thesis
    proof cases
      case quote
      note f = update_quote_frame [OF quote(2)]
      from quote(1) have lt: "quotes_row s < length (quotes_df s)" by (simp add: quotes_done_iff)
      with f Suc.prems(3) have
        "quotes_row s1 \<le> length (quotes_df s1)" "trades_row s1 \<le> length (trades_df s1)"
        by simp_all
      from Suc.IH [OF rest this] f lt show ?thesis
        by (simp add: evs applied_def Cons_nth_drop_Suc [symmetric])
    next
      case trade
      note f = update_trade_frame0 [OF trade(2)]
      from trade(1) have lt: "trades_row s < length (trades_df s)" by (simp add: trades_done_iff)
      with f Suc.prems(2) have
        "quotes_row s1 \<le> length (quotes_df s1)" "trades_row s1 \<le> length (trades_df s1)"
        by simp_all
      from Suc.IH [OF rest this] f lt show ?thesis
        by (simp add: evs applied_def Cons_nth_drop_Suc [symmetric])
    qed
  qed
qed

lemma replay_complete:
  assumes "0 < row_count cfg"
  shows "\<exists>evs s'. run (length qs + length ts) (init cfg qs ts) = Inr (evs, s') \<and>
           length evs = length qs + length ts \<and> quotes_of evs = qs \<and> trades_of evs = ts \<and>
           quotes_row s' = length qs \<and> trades_row s' = length ts"
proof -
  let ?s = "init cfg qs ts"
  have r: "remaining ?s = length qs + length ts" by (simp add: remaining_def init_def)
  have "0 < row_count (config ?s)" using assms by (simp add: init_def)
  from run_complete [OF inv_init this, of "length qs + length ts"] r obtain evs s' where
    run: "run (length qs + length ts) ?s = Inr (evs, s')" and
    len: "length evs = length qs + length ts" and
    fin: "quotes_row s' = length qs" "trades_row s' = length ts"
    by (auto simp: init_def)
  from run_streams [OF run] fin have "quotes_of evs = qs" "trades_of evs = ts"
    by (simp_all add: init_def)
  with run len fin show ?thesis by blast
qed

section \<open>Order of the replay\<close>

lemma tie_step:
  assumes "inv s" and "quotes_row s < length (quotes_df s)"
    and "trades_row s < length (trades_df s)"
    and "quote_time_value (quotes_df s ! quotes_row s)
           = trade_time_value (trades_df s ! trades_row s)"
  shows "\<exists>s'. get_next_price_ladder_df s = Inr (Some (price_ladder_df s'), s') \<and>
           applied s s' = TradeEvent (trades_df s ! trades_row s)"
proof -
  from update_trade_total [OF assms(1,3)] obtain s' where t: "update_trade s = Inr s'" ..
  from assms(2-4) t have "get_next_price_ladder_df s = Inr (Some (price_ladder_df s'), s')"
    by (simp add: get_next_price_ladder_df_def quotes_done_iff trades_done_iff)
  moreover from update_trade_frame0 [OF t] have
    "applied s s' = TradeEvent (trades_df s ! trades_row s)"
    by (simp add: applied_def)
  ultimately show ?thesis by blast
qed

lemma tie_run:
  "map_sum id fst (run 2 (init ex_cfg tie_quotes tie_trades))
     = Inr [TradeEvent (tie_trades ! 0), QuoteEvent (tie_quotes ! 0)]"
  by code_simp

lemma late_run:
  "map_sum id fst (run 2 (init ex_cfg late_quotes []))
     = Inr [QuoteEvent (late_quotes ! 0), QuoteEvent (late_quotes ! 1)]"
  by code_simp

text \<open>
  Claim C1, as amended. In every state reached from the constructor's state where both
  streams have a record left and the next quote and the next trade carry the same time,
  the step applies the trade, not the quote. For streams that are each sorted by time, the
  records applied by any number of steps from the constructor's state are non-decreasing
  in time with trades before quotes at equal times; and with at least one row the replay
  applies every record. (The claim says quotes before trades.)
\<close>

theorem replay_chronological_trades_first:
  "(\<forall>s. reachable (init cfg qs ts) s \<and> quotes_row s < length qs \<and>
        trades_row s < length ts \<and>
        quote_time_value (qs ! quotes_row s) = trade_time_value (ts ! trades_row s) \<longrightarrow>
        (\<exists>s'. get_next_price_ladder_df s = Inr (Some (price_ladder_df s'), s') \<and>
              applied s s' = TradeEvent (ts ! trades_row s))) \<and>
   (sorted (map quote_time_value qs) \<and> sorted (map trade_time_value ts) \<longrightarrow>
      (\<forall>n evs s'. run n (init cfg qs ts) = Inr (evs, s') \<longrightarrow>
         sorted_wrt chronological evs)) \<and>
   (sorted (map quote_time_value qs) \<and> sorted (map trade_time_value ts) \<and>
    0 < row_count cfg \<longrightarrow>
      (\<exists>evs s'. run (length qs + length ts) (init cfg qs ts) = Inr (evs, s') \<and>
         quotes_of evs = qs \<and> trades_of evs = ts \<and> sorted_wrt chronological evs))"
proof (intro conjI allI impI)
  fix s
  assume a: "reachable (init cfg qs ts) s \<and> quotes_row s < length qs \<and>
            trades_row s < length ts \<and>
            quote_time_value (qs ! quotes_row s) = trade_time_value (ts ! trades_row s)"
  then have r: "reachable (init cfg qs ts) s" by simp
  from reachable_frame [OF r] have f: "quotes_df s = qs" "trades_df s = ts"
    by (simp_all add: init_def)
  from reachable_inv [OF r inv_init] have "inv s" .
  from tie_step [OF this] a f
  show "\<exists>s'. get_next_price_ladder_df s = Inr (Some (price_ladder_df s'), s') \<and>
              applied s s' = TradeEvent (ts ! trades_row s)"
    by simp
next
  fix n evs s'
  assume srt: "sorted (map quote_time_value qs) \<and> sorted (map trade_time_value ts)"
    and run: "run n (init cfg qs ts) = Inr (evs, s')"
  from srt have "sorted (map quote_time_value (quotes_df (init cfg qs ts)))"
    "sorted (map trade_time_value (trades_df (init cfg qs ts)))"
    by (simp_all add: init_def)
  from run_chronological [OF this run] show "sorted_wrt chronological evs" by simp
next
  assume h: "sorted (map quote_time_value qs) \<and> sorted (map trade_time_value ts) \<and>
             0 < row_count cfg"
  then have pos: "0 < row_count cfg" by simp
  from replay_complete [OF pos, of qs ts] obtain evs s' where
    run: "run (length qs + length ts) (init cfg qs ts) = Inr (evs, s')" and
    str: "quotes_of evs = qs" "trades_of evs = ts"
    by blast
  from h have "sorted (map quote_time_value (quotes_df (init cfg qs ts)))"
    "sorted (map trade_time_value (trades_df (init cfg qs ts)))"
    by (simp_all add: init_def)
  from run_chronological [OF this run] have "sorted_wrt chronological evs" by simp
  with run str
  show "\<exists>evs s'. run (length qs + length ts) (init cfg qs ts) = Inr (evs, s') \<and>
          quotes_of evs = qs \<and> trades_of evs = ts \<and> sorted_wrt chronological evs"
    by blast
qed

theorem replay_chronological_trades_first_witness:
  "sorted (map quote_time_value tie_quotes) \<and> sorted (map trade_time_value tie_trades) \<and>
   0 < row_count ex_cfg \<and>
   quote_time_value (tie_quotes ! 0) = trade_time_value (tie_trades ! 0) \<and>
   (\<exists>s'. get_next_price_ladder_df (init ex_cfg tie_quotes tie_trades)
            = Inr (Some (price_ladder_df s'), s') \<and>
         applied (init ex_cfg tie_quotes tie_trades) s' = TradeEvent (tie_trades ! 0)) \<and>
   map_sum id fst (run 2 (init ex_cfg tie_quotes tie_trades))
     = Inr [TradeEvent (tie_trades ! 0), QuoteEvent (tie_quotes ! 0)] \<and>
   sorted_wrt chronological [TradeEvent (tie_trades ! 0), QuoteEvent (tie_quotes ! 0)] \<and>
   (\<exists>evs s'. run 2 (init ex_cfg tie_quotes tie_trades) = Inr (evs, s') \<and>
         quotes_of evs = tie_quotes \<and> trades_of evs = tie_trades \<and>
         sorted_wrt chronological evs)"
proof -
  let ?s = "init ex_cfg tie_quotes tie_trades"
  have h: "sorted (map quote_time_value tie_quotes) \<and> sorted (map trade_time_value tie_trades)"
    by (simp add: tie_quotes_def tie_trades_def)
  have p: "0 < row_count ex_cfg" by (simp add: ex_cfg_def)
  have t: "reachable ?s ?s \<and> quotes_row ?s < length tie_quotes \<and>
           trades_row ?s < length tie_trades \<and>
           quote_time_value (tie_quotes ! quotes_row ?s)
             = trade_time_value (tie_trades ! trades_row ?s)"
    by (simp add: reachable_start init_def tie_quotes_def tie_trades_def)
  have l: "length tie_quotes = 1" "length tie_trades = 1" "quotes_row ?s = 0" "trades_row ?s = 0"
    by (simp_all add: init_def tie_quotes_def tie_trades_def)
  have l2: "length tie_quotes + length tie_trades = 2"
    by (simp add: l)
  have e: "quote_time_value (tie_quotes ! 0) = trade_time_value (tie_trades ! 0)"
    by (simp add: tie_quotes_def tie_trades_def)
  note main = replay_chronological_trades_first [of ex_cfg tie_quotes tie_trades]
  from main have 1: "\<exists>s'. get_next_price_ladder_df ?s = Inr (Some (price_ladder_df s'), s') \<and>
                      applied ?s s' = TradeEvent (tie_trades ! trades_row ?s)"
    using t by blast
  from tie_run obtain s' where
    r: "run 2 ?s = Inr ([TradeEvent (tie_trades ! 0), QuoteEvent (tie_quotes ! 0)], s')"
    by (cases "run 2 ?s") auto
  from main h r have 2: "sorted_wrt chronological
                           [TradeEvent (tie_trades ! 0), QuoteEvent (tie_quotes ! 0)]"
    by blast
  from main h p have 3: "\<exists>evs s'. run (length tie_quotes + length tie_trades) ?s = Inr (evs, s') \<and>
         quotes_of evs = tie_quotes \<and> trades_of evs = tie_trades \<and>
         sorted_wrt chronological evs"
    by blast
  from 1 2 3 [unfolded l2] h p e tie_run show ?thesis
    by (simp only: l simp_thms)
qed

text \<open>
  The claim as stated fails on a quote and a trade that both carry the time 5: the replay
  applies the trade first and the quote second.
\<close>

theorem tie_applies_trade_counterexample:
  "quote_time_value (tie_quotes ! 0) = trade_time_value (tie_trades ! 0) \<and>
   map_sum id fst (run 2 (init ex_cfg tie_quotes tie_trades))
     = Inr [TradeEvent (tie_trades ! 0), QuoteEvent (tie_quotes ! 0)]"
  using tie_run by (simp add: tie_quotes_def tie_trades_def)

text \<open>
  Claim C5, as amended. The engine compares no record with its predecessor: whatever the
  times in the two streams, with at least one row the replay from the constructor's state
  raises nothing and applies every quote and every trade, each stream in its stored
  order. (The claim says a record older than its predecessor makes the engine raise.)
\<close>

theorem replay_ignores_time_order:
  assumes "0 < row_count cfg"
  shows "\<exists>evs s'. run (length qs + length ts) (init cfg qs ts) = Inr (evs, s') \<and>
           quotes_of evs = qs \<and> trades_of evs = ts \<and>
           quotes_row s' = length qs \<and> trades_row s' = length ts"
  using replay_complete [OF assms, of qs ts] by blast

theorem replay_ignores_time_order_witness:
  "0 < row_count ex_cfg \<and>
   quote_time_value (late_quotes ! 1) < quote_time_value (late_quotes ! 0) \<and>
   (\<exists>evs s'. run 2 (init ex_cfg late_quotes []) = Inr (evs, s') \<and>
         quotes_of evs = late_quotes \<and> trades_of evs = [] \<and>
         quotes_row s' = 2 \<and> trades_row s' = 0)"
proof -
  have h: "0 < row_count ex_cfg" by (simp add: ex_cfg_def)
  have l: "length late_quotes = 2" by (simp add: late_quotes_def)
  have e: "quote_time_value (late_quotes ! 1) < quote_time_value (late_quotes ! 0)"
    by (simp add: late_quotes_def)
  from replay_ignores_time_order [OF h, of late_quotes "[]"] h e show ?thesis
    by (simp add: l)
qed

text \<open>
  The claim as stated fails on two quotes with the times 3 and 1 in this order: the
  replay returns normally and applies the second quote after the first.
\<close>

theorem out_of_order_quote_applied_counterexample:
  "quote_time_value (late_quotes ! 1) < quote_time_value (late_quotes ! 0) \<and>
   map_sum id fst (run 2 (init ex_cfg late_quotes []))
     = Inr [QuoteEvent (late_quotes ! 0), QuoteEvent (late_quotes ! 1)]"
  using late_run by (simp add: late_quotes_def)

end
